theory Spec2Isabelle
  imports Main "HOL-Library.Sublist" "HOL-Library.AList"
begin

section \<open>Data model\<close>

text \<open>
  The values that \<^verbatim>\<open>json.load\<close> hands to the client. JSON numbers are the integers;
  an object is the list of its items in order (a Python \<^verbatim>\<open>dict\<close>).
\<close>

datatype json =
    JNull
  | JBool bool
  | JInt int
  | JStr string
  | JArr "json list"
  | JObj "(string \<times> json) list"

text \<open>
  The exceptions the client can leave with. The first three are raised or passed on by
  the client's own code; the last four are raised by Python's built-in operations
  (subscripting, iteration, \<^verbatim>\<open>str.join\<close>, hashing, \<^verbatim>\<open>int\<close>).
\<close>

datatype error =
    TransportError string
      \<comment> \<open>whatever \<^verbatim>\<open>urlopen\<close> or \<^verbatim>\<open>json.load\<close> raised; it is not caught\<close>
  | PaginationTypeError
      \<comment> \<open>\<^verbatim>\<open>TypeError('cannot handle pagination when `body` is not an array')\<close>\<close>
  | UnableToFindAddress int
      \<comment> \<open>\<^verbatim>\<open>ValueError(f'unable to find address for station: {decentlab_id!r}')\<close>\<close>
  | TypeError
  | KeyError
  | IndexError
  | InvalidLiteral
      \<comment> \<open>the \<^verbatim>\<open>ValueError\<close> of \<^verbatim>\<open>int\<close> on a string that is no integer literal\<close>

text \<open>
  Modelled from the spec: \<^verbatim>\<open>element.schemas.ApiReturn\<close>, the response envelope
  \<^verbatim>\<open>{ body: <record-or-sequence>, retrieve_after_id?: <token> }\<close>. The token is a
  string; an absent token is what \<^verbatim>\<open>.get('retrieve_after_id')\<close> reads as \<^verbatim>\<open>None\<close>.
\<close>

record api_return =
  body :: json
  retrieve_after_id :: "string option"

text \<open>
  The inner dictionary of the cache, \<^verbatim>\<open>{decentlab_id: address}\<close>, in insertion order.
  Its keys are whatever hashable value was stored (the annotation says \<^verbatim>\<open>int\<close>); its
  values are always strings.
\<close>

type_synonym id_dict = "(json \<times> string) list"

record client =
  api_location :: string
  api_key :: string
  id_to_address_mapping :: "string \<rightharpoonup> id_dict"

text \<open>
  The transport: \<^verbatim>\<open>json.load(urllib.request.urlopen(req, timeout=5))\<close>. The answer may
  depend on the request and on every request made before it; \<open>Inl\<close> is a failure of the
  transport or of the decoding.
\<close>

type_synonym transport = "string list \<Rightarrow> string \<Rightarrow> string + api_return"

section \<open>Python's built-in operations\<close>

fun subscript :: "json \<Rightarrow> string \<Rightarrow> error + json" where
  \<comment> \<open>\<^verbatim>\<open>x['k']\<close>\<close>
  "subscript (JObj kvs) k = (case map_of kvs k of None \<Rightarrow> Inl KeyError | Some v \<Rightarrow> Inr v)"
| "subscript _ k = Inl TypeError"

fun subscript0 :: "json \<Rightarrow> error + json" where
  \<comment> \<open>\<^verbatim>\<open>x[0]\<close>\<close>
  "subscript0 (JArr []) = Inl IndexError"
| "subscript0 (JArr (x # xs)) = Inr x"
| "subscript0 (JStr []) = Inl IndexError"
| "subscript0 (JStr (c # cs)) = Inr (JStr [c])"
| "subscript0 (JObj kvs) = Inl KeyError"
| "subscript0 _ = Inl TypeError"

fun py_iter :: "json \<Rightarrow> error + json list" where
  \<comment> \<open>the items a \<^verbatim>\<open>for\<close> loop or \<^verbatim>\<open>list.extend\<close> takes from a value\<close>
  "py_iter (JArr xs) = Inr xs"
| "py_iter (JObj kvs) = Inr (map (\<lambda>kv. JStr (fst kv)) kvs)"
| "py_iter (JStr s) = Inr (map (\<lambda>c. JStr [c]) s)"
| "py_iter _ = Inl TypeError"

fun hash_key :: "json \<Rightarrow> error + json" where
  \<comment> \<open>a value used as a dictionary key: lists and dicts are unhashable, and
     \<^verbatim>\<open>True\<close>/\<^verbatim>\<open>False\<close> are the keys \<^verbatim>\<open>1\<close>/\<^verbatim>\<open>0\<close>\<close>
  "hash_key (JArr xs) = Inl TypeError"
| "hash_key (JObj kvs) = Inl TypeError"
| "hash_key (JBool b) = Inr (JInt (if b then 1 else 0))"
| "hash_key v = Inr v"

fun eq_int :: "json \<Rightarrow> int \<Rightarrow> bool" where
  \<comment> \<open>\<^verbatim>\<open>v == n\<close> for an \<^verbatim>\<open>int\<close> \<open>n\<close>\<close>
  "eq_int (JInt m) n = (m = n)"
| "eq_int (JBool b) n = ((if b then 1 else 0) = n)"
| "eq_int _ n = False"

fun py_int :: "(string \<Rightarrow> int option) \<Rightarrow> json \<Rightarrow> error + int" where
  \<comment> \<open>\<^verbatim>\<open>int(v)\<close>; the first argument is \<^verbatim>\<open>int\<close> on strings\<close>
  "py_int parse (JStr s) = (case parse s of None \<Rightarrow> Inl InvalidLiteral | Some n \<Rightarrow> Inr n)"
| "py_int parse (JInt n) = Inr n"
| "py_int parse (JBool b) = Inr (if b then 1 else 0)"
| "py_int parse _ = Inl TypeError"

definition truthy :: "string option \<Rightarrow> bool" where
  \<comment> \<open>the truth value of \<^verbatim>\<open>None\<close> or a string\<close>
  "truthy t = (case t of None \<Rightarrow> False | Some s \<Rightarrow> s \<noteq> [])"

fun digits :: "nat \<Rightarrow> string" where
  "digits n = (if n < 10 then [char_of (48 + n)] else digits (n div 10) @ [char_of (48 + n mod 10)])"

definition str_int :: "int \<Rightarrow> string" where
  \<comment> \<open>\<^verbatim>\<open>str(n)\<close>\<close>
  "str_int n = (if n < 0 then CHR ''-'' # digits (nat (- n)) else digits (nat n))"

definition join :: "string \<Rightarrow> string list \<Rightarrow> string" where
  \<comment> \<open>\<^verbatim>\<open>sep.join(xs)\<close>\<close>
  "join sep xs = (case xs of [] \<Rightarrow> [] | y # ys \<Rightarrow> y @ concat (map (\<lambda>z. sep @ z) ys))"

section \<open>The printable representation\<close>

definition hex2 :: "char \<Rightarrow> string" where
  "hex2 c = [''0123456789abcdef'' ! (of_char c div 16), ''0123456789abcdef'' ! (of_char c mod 16)]"

definition repr_char :: "char \<Rightarrow> char \<Rightarrow> string" where
  "repr_char q c =
     (if c = q \<or> c = CHR 0x5C then [CHR 0x5C, c]
      else if c = CHR 0x09 then [CHR 0x5C, CHR ''t'']
      else if c = CHR 0x0A then [CHR 0x5C, CHR ''n'']
      else if c = CHR 0x0D then [CHR 0x5C, CHR ''r'']
      else if (of_char c :: nat) < 32 \<or> c = CHR 0x7F then [CHR 0x5C, CHR ''x''] @ hex2 c
      else [c])"

definition repr_str :: "string \<Rightarrow> string" where
  \<comment> \<open>\<^verbatim>\<open>repr(s)\<close> of a string: double quotes only when \<open>s\<close> has a single quote and no
     double quote; bytes from 0x80 on (printable characters in UTF-8) stay as they are\<close>
  "repr_str s =
     (let q = (if CHR 0x27 \<in> set s \<and> CHR 0x22 \<notin> set s then CHR 0x22 else CHR 0x27)
      in q # concat (map (repr_char q) s) @ [q])"

definition masked_key :: "string \<Rightarrow> string" where
  \<comment> \<open>\<^verbatim>\<open>f'{(len(self.api_key) - 3) * "*"}{self.api_key[-3:]}'\<close>\<close>
  "masked_key k =
     replicate (nat (int (length k) - 3)) CHR ''*'' @ drop (length k - 3) k"

definition repr :: "client \<Rightarrow> string" where
  \<comment> \<open>\<^verbatim>\<open>ElementApi.__repr__\<close>\<close>
  "repr c =
     ''ElementApi'' @ ''('' @ ''api_location='' @ repr_str (api_location c) @ '', ''
       @ ''api_key='' @ masked_key (api_key c) @ '')''"

section \<open>The identifier cache\<close>

definition init :: "string \<Rightarrow> string \<Rightarrow> client" where
  \<comment> \<open>\<^verbatim>\<open>ElementApi.__init__\<close>; \<open>strip\<close> is \<^verbatim>\<open>str.strip('/')\<close>\<close>
  "init loc key =
     \<lparr>api_location = rev (dropWhile (\<lambda>c. c = CHR ''/'') (rev (dropWhile (\<lambda>c. c = CHR ''/'') loc))),
      api_key = key,
      id_to_address_mapping = Map.empty\<rparr>"

definition setitem :: "'k \<Rightarrow> 'v \<Rightarrow> ('k \<times> 'v) list \<Rightarrow> ('k \<times> 'v) list" where
  \<comment> \<open>\<^verbatim>\<open>d[k] = v\<close>: a present key keeps its place, a new key goes to the end\<close>
  "setitem k v d = AList.update k v d"

definition invert :: "('k \<times> 'v) list \<Rightarrow> ('v \<times> 'k) list" where
  \<comment> \<open>\<^verbatim>\<open>{inner_v: inner_k for inner_k, inner_v in inner.items()}\<close>\<close>
  "invert d = foldl (\<lambda>acc kv. setitem (snd kv) (fst kv) acc) [] d"

definition address_to_id_mapping :: "client \<Rightarrow> (string \<rightharpoonup> (string \<times> json) list)" where
  \<comment> \<open>the property \<^verbatim>\<open>_address_to_id_mapping\<close>\<close>
  "address_to_id_mapping c = (\<lambda>outer_k. map_option invert (id_to_address_mapping c outer_k))"

section \<open>The paginator\<close>

datatype param = PStr string | PNone | PInt int

fun format_param :: "param \<Rightarrow> string" where
  \<comment> \<open>\<^verbatim>\<open>f'{v}'\<close> for a value of a query parameter\<close>
  "format_param (PStr s) = s"
| "format_param PNone = ''None''"
| "format_param (PInt n) = str_int n"

definition param_str :: "(string \<times> param) list \<Rightarrow> string" where
  "param_str params =
     (if params \<noteq> []
      then ''&'' @ join ''&'' (map (\<lambda>kv. fst kv @ ''='' @ format_param (snd kv)) params)
      else [])"

definition first_req :: "client \<Rightarrow> string \<Rightarrow> (string \<times> param) list \<Rightarrow> string" where
  \<comment> \<open>\<^verbatim>\<open>f'{self.api_location}/{route}?&auth={self.api_key}{param_str}'\<close>\<close>
  "first_req c route params =
     api_location c @ ''/'' @ route @ ''?&auth='' @ api_key c @ param_str params"

definition next_req :: "client \<Rightarrow> string \<Rightarrow> (string \<times> param) list \<Rightarrow> string \<Rightarrow> string" where
  \<comment> \<open>the request of a further page, with \<^verbatim>\<open>&retrieve_after={retrieve_after_id}\<close>\<close>
  "next_req c route params tok = first_req c route params @ ''&retrieve_after='' @ tok"

definition page_cap_reached :: "int option \<Rightarrow> int \<Rightarrow> bool" where
  \<comment> \<open>\<^verbatim>\<open>max_pages and i >= max_pages\<close>\<close>
  "page_cap_reached max_pages i =
     (case max_pages of None \<Rightarrow> False | Some m \<Rightarrow> m \<noteq> 0 \<and> i \<ge> m)"

text \<open>
  The \<^verbatim>\<open>while retrieve_after_id:\<close> loop of \<^verbatim>\<open>_make_req\<close>. Its state is the first
  envelope \<open>output_data\<close> (whose body grows), the latest token, the page counter and the
  requests made so far. The loop need not end: \<open>None\<close> is a run that never returns.
\<close>

partial_function (option) pages ::
  "transport \<Rightarrow> (string \<Rightarrow> string) \<Rightarrow> int option \<Rightarrow> api_return \<Rightarrow> string option \<Rightarrow> int
     \<Rightarrow> string list \<Rightarrow> ((error + api_return) \<times> string list) option" where
  "pages net req_of max_pages output_data tok i log =
     (if truthy tok then
        if page_cap_reached max_pages i then Some (Inr output_data, log)
        else
          let req = req_of (the tok) in
          case net log req of
            Inl m \<Rightarrow> Some (Inl (TransportError m), log @ [req])
          | Inr data \<Rightarrow>
              (case body output_data of
                 JArr xs \<Rightarrow>
                   (case py_iter (body data) of
                      Inl e \<Rightarrow> Some (Inl e, log @ [req])
                    | Inr ys \<Rightarrow>
                        pages net req_of max_pages (output_data\<lparr>body := JArr (xs @ ys)\<rparr>)
                          (retrieve_after_id data) (i + 1) (log @ [req]))
               | _ \<Rightarrow> Some (Inl PaginationTypeError, log @ [req]))
      else Some (Inr output_data, log))"

declare pages.simps [code]

definition make_req ::
  "transport \<Rightarrow> client \<Rightarrow> string \<Rightarrow> (string \<times> param) list \<Rightarrow> int option \<Rightarrow> string list
     \<Rightarrow> ((error + api_return) \<times> string list) option" where
  \<comment> \<open>\<^verbatim>\<open>ElementApi._make_req\<close>\<close>
  "make_req net c route params max_pages log =
     (let req = first_req c route params in
      case net log req of
        Inl m \<Rightarrow> Some (Inl (TransportError m), log @ [req])
      | Inr output_data \<Rightarrow>
          pages net (next_req c route params) max_pages output_data
            (retrieve_after_id output_data) 1 (log @ [req]))"

section \<open>Resource accessors\<close>

definition devices_route :: "string \<Rightarrow> string" where
  "devices_route folder = join ''/'' [''tags'', folder, ''devices'']"

definition get_devices ::
  "transport \<Rightarrow> client \<Rightarrow> string \<Rightarrow> string list \<Rightarrow> ((error + api_return) \<times> string list) option" where
  "get_devices net c folder log = make_req net c (devices_route folder) [] None log"

definition device_route :: "(string \<Rightarrow> string) \<Rightarrow> string \<Rightarrow> string" where
  \<comment> \<open>the first argument is \<^verbatim>\<open>str.lower\<close>\<close>
  "device_route lower address = join ''/'' [''devices'', lower address]"

definition get_device ::
  "transport \<Rightarrow> (string \<Rightarrow> string) \<Rightarrow> client \<Rightarrow> string \<Rightarrow> string list
     \<Rightarrow> ((error + api_return) \<times> string list) option" where
  "get_device net lower c address log = make_req net c (device_route lower address) [] None log"

definition readings_route :: "string \<Rightarrow> string" where
  "readings_route device_name = join ''/'' [''devices'', ''by-name'', device_name, ''readings'']"

definition readings_params ::
  "string \<Rightarrow> string \<Rightarrow> string option \<Rightarrow> string option \<Rightarrow> int \<Rightarrow> (string \<times> param) list" where
  \<comment> \<open>\<^verbatim>\<open>start\<close> and \<^verbatim>\<open>end\<close> are given as their \<^verbatim>\<open>isoformat()\<close>, \<open>None\<close> when not set\<close>
  "readings_params sort_by sort_direction start_iso end_iso limit =
     [(''sort'', PStr sort_by), (''sort_direction'', PStr sort_direction), (''limit'', PInt limit)]
     @ (case start_iso of None \<Rightarrow> [] | Some s \<Rightarrow> [(''after'', PStr s)])
     @ (case end_iso of None \<Rightarrow> [] | Some e \<Rightarrow> [(''before'', PStr e)])"

definition get_readings ::
  "transport \<Rightarrow> client \<Rightarrow> string \<Rightarrow> string \<Rightarrow> string \<Rightarrow> string option \<Rightarrow> string option \<Rightarrow> int
     \<Rightarrow> int option \<Rightarrow> string list \<Rightarrow> ((error + api_return) \<times> string list) option" where
  \<comment> \<open>\<^verbatim>\<open>ElementApi.get_readings\<close> with \<^verbatim>\<open>as_dataframe=False\<close>\<close>
  "get_readings net c device_name sort_by sort_direction start_iso end_iso limit max_pages log =
     make_req net c (readings_route device_name)
       (readings_params sort_by sort_direction start_iso end_iso limit) max_pages log"

definition probe_req :: "client \<Rightarrow> string \<Rightarrow> string" where
  \<comment> \<open>the request of \<^verbatim>\<open>get_readings(device_name=a, limit=1, max_pages=1)\<close>\<close>
  "probe_req c a =
     first_req c (readings_route a) (readings_params ''measured_at'' ''asc'' None None 1)"

section \<open>Resolving identifiers\<close>

definition and_then :: "error + 'a \<Rightarrow> ('a \<Rightarrow> error + 'b) \<Rightarrow> error + 'b" where
  \<comment> \<open>the second step runs only when the first raised nothing\<close>
  "and_then r f = (case r of Inl e \<Rightarrow> Inl e | Inr x \<Rightarrow> f x)"

definition store :: "client \<Rightarrow> string \<Rightarrow> json \<Rightarrow> string \<Rightarrow> client" where
  \<comment> \<open>\<^verbatim>\<open>self._id_to_address_mapping[folder][k] = v\<close> for a hashable \<open>k\<close>; the outer
     dictionary is a \<^verbatim>\<open>defaultdict(dict)\<close>\<close>
  "store c folder k v =
     c\<lparr>id_to_address_mapping :=
         (id_to_address_mapping c)(folder \<mapsto>
            setitem k v (case id_to_address_mapping c folder of None \<Rightarrow> [] | Some d \<Rightarrow> d))\<rparr>"

definition touch :: "client \<Rightarrow> string \<Rightarrow> client" where
  \<comment> \<open>\<^verbatim>\<open>self._id_to_address_mapping[folder]\<close> alone: a folder not yet there gets an empty
     dictionary\<close>
  "touch c folder =
     c\<lparr>id_to_address_mapping :=
         (id_to_address_mapping c)(folder \<mapsto>
            (case id_to_address_mapping c folder of None \<Rightarrow> [] | Some d \<Rightarrow> d))\<rparr>"

definition device_serial :: "json \<Rightarrow> error + json" where
  \<comment> \<open>\<^verbatim>\<open>device['fields']['gerateinformation']['seriennummer']\<close>\<close>
  "device_serial device =
     and_then (and_then (subscript device ''fields'') (\<lambda>x. subscript x ''gerateinformation''))
       (\<lambda>x. subscript x ''seriennummer'')"

definition reading_device_id :: "api_return \<Rightarrow> error + json" where
  \<comment> \<open>\<^verbatim>\<open>resp['body'][0]['data']['device_id']\<close>\<close>
  "reading_device_id resp =
     and_then (and_then (subscript0 (body resp)) (\<lambda>x. subscript x ''data''))
       (\<lambda>x. subscript x ''device_id'')"

definition cached_id :: "client \<Rightarrow> string \<Rightarrow> string \<Rightarrow> json" where
  \<comment> \<open>\<^verbatim>\<open>folder_mapping.get(address) if folder_mapping else None\<close>, with
     \<^verbatim>\<open>folder_mapping = self._address_to_id_mapping.get(folder)\<close>; \<open>JNull\<close> is \<^verbatim>\<open>None\<close>\<close>
  "cached_id c address folder =
     (case address_to_id_mapping c folder of
        None \<Rightarrow> JNull
      | Some folder_mapping \<Rightarrow>
          if folder_mapping \<noteq> []
          then (case map_of folder_mapping address of None \<Rightarrow> JNull | Some k \<Rightarrow> k)
          else JNull)"

definition decentlab_id_from_address ::
  "transport \<Rightarrow> (string \<Rightarrow> int option) \<Rightarrow> (string \<Rightarrow> string) \<Rightarrow> client \<Rightarrow> string \<Rightarrow> string
     \<Rightarrow> string list \<Rightarrow> ((error + json) \<times> client \<times> string list) option" where
  \<comment> \<open>\<^verbatim>\<open>ElementApi.decentlab_id_from_address\<close>; \<open>parse\<close> is \<^verbatim>\<open>int\<close> on strings and
     \<open>lower\<close> is \<^verbatim>\<open>str.lower\<close>\<close>
  "decentlab_id_from_address net parse lower c address folder log =
     (let decentlab_id = cached_id c address folder in
      if decentlab_id = JNull then
        case get_device net lower c address log of
          None \<Rightarrow> None
        | Some (Inl e, log') \<Rightarrow> Some (Inl e, c, log')
        | Some (Inr device, log') \<Rightarrow>
            (case and_then (device_serial (body device)) (py_int parse) of
               Inl e \<Rightarrow> Some (Inl e, c, log')
             | Inr n \<Rightarrow> Some (Inr (JInt n), store c folder (JInt n) address, log'))
      else Some (Inr decentlab_id, c, log))"

definition cached_address :: "client \<Rightarrow> int \<Rightarrow> string \<Rightarrow> string option" where
  \<comment> \<open>the test \<^verbatim>\<open>folder_mapping and folder_mapping.get(decentlab_id)\<close>: the address when
     the test holds, \<open>None\<close> when it does not\<close>
  "cached_address c decentlab_id folder =
     (case id_to_address_mapping c folder of
        None \<Rightarrow> None
      | Some folder_mapping \<Rightarrow>
          if folder_mapping \<noteq> [] \<and> truthy (map_of folder_mapping (JInt decentlab_id))
          then map_of folder_mapping (JInt decentlab_id)
          else None)"

definition already_requested :: "client \<Rightarrow> string \<Rightarrow> string \<Rightarrow> bool" where
  \<comment> \<open>\<^verbatim>\<open>curr_folder and curr_device_addr in self._id_to_address_mapping[folder].values()\<close>\<close>
  "already_requested c folder a =
     (case id_to_address_mapping c folder of
        None \<Rightarrow> False
      | Some curr_folder \<Rightarrow> curr_folder \<noteq> [] \<and> a \<in> set (map snd curr_folder))"

text \<open>
  The \<^verbatim>\<open>for i in devices['body']\<close> loop with its \<^verbatim>\<open>else\<close> branch. A name that is not a
  string is in no dictionary of strings, so it is not skipped, and \<^verbatim>\<open>'/'.join\<close> in
  \<^verbatim>\<open>get_readings\<close> raises on it before any request is made.
\<close>

fun probe ::
  "transport \<Rightarrow> int \<Rightarrow> string \<Rightarrow> json list \<Rightarrow> client \<Rightarrow> string list
     \<Rightarrow> ((error + string) \<times> client \<times> string list) option" where
  "probe net decentlab_id folder [] c log = Some (Inl (UnableToFindAddress decentlab_id), c, log)"
| "probe net decentlab_id folder (i # rest) c log =
     (case subscript i ''name'' of
        Inl e \<Rightarrow> Some (Inl e, c, log)
      | Inr (JStr curr_device_addr) \<Rightarrow>
          if already_requested c folder curr_device_addr
          then probe net decentlab_id folder rest c log
          else
            (case get_readings net c curr_device_addr ''measured_at'' ''asc'' None None 1 (Some 1) log of
               None \<Rightarrow> None
             | Some (Inl e, log') \<Rightarrow> Some (Inl e, c, log')
             | Some (Inr resp, log') \<Rightarrow>
                 (case reading_device_id resp of
                    Inl e \<Rightarrow> Some (Inl e, c, log')
                  | Inr curr_decentlab_id \<Rightarrow>
                      (case hash_key curr_decentlab_id of
                         Inl e \<Rightarrow> Some (Inl e, touch c folder, log')
                       | Inr k \<Rightarrow>
                           if eq_int curr_decentlab_id decentlab_id
                           then Some (Inr curr_device_addr, store c folder k curr_device_addr, log')
                           else probe net decentlab_id folder rest
                                  (store c folder k curr_device_addr) log')))
      | Inr _ \<Rightarrow> Some (Inl TypeError, c, log))"

definition address_from_decentlab_id ::
  "transport \<Rightarrow> client \<Rightarrow> int \<Rightarrow> string \<Rightarrow> string list
     \<Rightarrow> ((error + string) \<times> client \<times> string list) option" where
  \<comment> \<open>\<^verbatim>\<open>ElementApi.address_from_decentlab_id\<close>\<close>
  "address_from_decentlab_id net c decentlab_id folder log =
     (case cached_address c decentlab_id folder of
        Some a \<Rightarrow> Some (Inr a, c, log)
      | None \<Rightarrow>
          (case get_devices net c folder log of
             None \<Rightarrow> None
           | Some (Inl e, log') \<Rightarrow> Some (Inl e, c, log')
           | Some (Inr devices, log') \<Rightarrow>
               (case py_iter (body devices) of
                  Inl e \<Rightarrow> Some (Inl e, c, log')
                | Inr ds \<Rightarrow> probe net decentlab_id folder ds c log')))"

section \<open>Notions used to state the properties\<close>

fun is_sequence :: "json \<Rightarrow> bool" where
  \<comment> \<open>\<^verbatim>\<open>isinstance(body, list)\<close>\<close>
  "is_sequence (JArr xs) = True"
| "is_sequence _ = False"

definition records :: "api_return \<Rightarrow> json list" where
  \<comment> \<open>the record sequence of a page\<close>
  "records p = (case body p of JArr xs \<Rightarrow> xs | _ \<Rightarrow> [])"

definition page_reqs ::
  "client \<Rightarrow> string \<Rightarrow> (string \<times> param) list \<Rightarrow> api_return list \<Rightarrow> string list" where
  \<comment> \<open>the request of page 1, then for every later page the request that carries the
     token of the page before it\<close>
  "page_reqs c route params ps =
     first_req c route params
       # map (\<lambda>p. next_req c route params (the (retrieve_after_id p))) (butlast ps)"

definition paginated_source ::
  "transport \<Rightarrow> client \<Rightarrow> string \<Rightarrow> (string \<times> param) list \<Rightarrow> string list \<Rightarrow> api_return list
     \<Rightarrow> bool" where
  \<comment> \<open>from the history \<open>log\<close> on, the transport emits the pages \<open>ps\<close>: every page holds a
     record sequence, all pages but the last carry a token, the last carries none, and
     page \<open>j\<close> answers the request built from the token of page \<open>j - 1\<close>\<close>
  "paginated_source net c route params log ps \<longleftrightarrow>
     ps \<noteq> [] \<and>
     (\<forall>p \<in> set ps. is_sequence (body p)) \<and>
     (\<forall>p \<in> set (butlast ps). truthy (retrieve_after_id p)) \<and>
     \<not> truthy (retrieve_after_id (last ps)) \<and>
     (\<forall>j < length ps.
        net (log @ take j (page_reqs c route params ps)) (page_reqs c route params ps ! j)
          = Inr (ps ! j))"

fun feeds ::
  "transport \<Rightarrow> (string \<Rightarrow> string) \<Rightarrow> string option \<Rightarrow> string list \<Rightarrow> api_return list \<Rightarrow> bool" where
  \<comment> \<open>the same, seen from inside the loop: the pages still to come after token \<open>tok\<close>\<close>
  "feeds net req_of tok log [] = (\<not> truthy tok)"
| "feeds net req_of tok log (p # ps) =
     (truthy tok \<and> net log (req_of (the tok)) = Inr p \<and> is_sequence (body p) \<and>
      feeds net req_of (retrieve_after_id p) (log @ [req_of (the tok)]) ps)"

fun reqs_from :: "(string \<Rightarrow> string) \<Rightarrow> string option \<Rightarrow> api_return list \<Rightarrow> string list" where
  "reqs_from req_of tok [] = []"
| "reqs_from req_of tok (p # ps) = req_of (the tok) # reqs_from req_of (retrieve_after_id p) ps"

definition forward_lookup :: "client \<Rightarrow> string \<Rightarrow> json \<Rightarrow> string option" where
  \<comment> \<open>the forward map (folder, id) \<open>\<rightarrow>\<close> address that the cache holds; a numeric id \<open>n\<close> is the
     key \<open>JInt n\<close>\<close>
  "forward_lookup c f k = (case id_to_address_mapping c f of None \<Rightarrow> None | Some d \<Rightarrow> map_of d k)"

definition reverse_lookup :: "client \<Rightarrow> string \<Rightarrow> string \<Rightarrow> json option" where
  \<comment> \<open>the reverse view (folder, address) \<open>\<rightarrow>\<close> id, read off \<^verbatim>\<open>_address_to_id_mapping\<close>\<close>
  "reverse_lookup c f a = (case address_to_id_mapping c f of None \<Rightarrow> None | Some r \<Rightarrow> map_of r a)"

inductive call :: "string \<Rightarrow> client \<Rightarrow> client \<Rightarrow> bool" where
  \<comment> \<open>one call of either lookup for a folder that comes back, with a result or with an
     exception, takes the client from the first state to the second\<close>
  forward:
    "decentlab_id_from_address net parse lower c address folder log = Some (r, c', log')
     \<Longrightarrow> call folder c c'"
| reverse:
    "address_from_decentlab_id net c decentlab_id folder log = Some (r', c', log')
     \<Longrightarrow> call folder c c'"


inductive reachable :: "client \<Rightarrow> bool" where
  \<comment> \<open>the states of a client from its construction on\<close>
  fresh: "reachable (init loc key)"
| after: "reachable c \<Longrightarrow> call folder c c' \<Longrightarrow> reachable c'"

definition wf_cache :: "client \<Rightarrow> bool" where
  \<comment> \<open>every inner dictionary holds each key once\<close>
  "wf_cache c \<longleftrightarrow> (\<forall>f d. id_to_address_mapping c f = Some d \<longrightarrow> distinct (map fst d))"

definition folder_dict :: "client \<Rightarrow> string \<Rightarrow> id_dict" where
  \<comment> \<open>the inner dictionary of a folder, empty when the folder is not there\<close>
  "folder_dict c f = (case id_to_address_mapping c f of None \<Rightarrow> [] | Some d \<Rightarrow> d)"

definition agrees :: "(string \<Rightarrow> int) \<Rightarrow> client \<Rightarrow> string \<Rightarrow> bool" where
  \<comment> \<open>every entry of the folder's dictionary maps the id of its address to that address,
     for \<open>ident\<close> the numeric id that each device has\<close>
  "agrees ident c f \<longleftrightarrow> (\<forall>ka \<in> set (folder_dict c f). fst ka = JInt (ident (snd ka)))"

definition numeric_keys :: "client \<Rightarrow> bool" where
  \<comment> \<open>every key of the cache is an integer, as the annotation \<^verbatim>\<open>dict[str, dict[int, str]]\<close>
     says\<close>
  "numeric_keys c \<longleftrightarrow> (\<forall>f. \<forall>ka \<in> set (folder_dict c f). \<exists>n. fst ka = JInt n)"


subsection \<open>Concrete clients and transports\<close>

definition demo_client :: client where
  "demo_client = init ''https://dew21.element-iot.com/api/v1/'' ''abcdef123''"

definition three_pages :: "api_return list" where
  "three_pages =
     [\<lparr>body = JArr [JInt 1, JInt 2], retrieve_after_id = Some ''a''\<rparr>,
      \<lparr>body = JArr [JInt 3], retrieve_after_id = Some ''b''\<rparr>,
      \<lparr>body = JArr [JInt 4], retrieve_after_id = None\<rparr>]"

definition three_page_net :: transport where
  \<comment> \<open>answers the first three requests with the three pages in turn\<close>
  "three_page_net h r = (if length h < 3 then Inr (three_pages ! length h) else Inl ''HTTP Error 404'')"

definition device :: "string \<Rightarrow> json" where
  "device a = JObj [(''name'', JStr a)]"

definition reading :: "int \<Rightarrow> api_return" where
  \<comment> \<open>the answer to a probe of a device with one reading\<close>
  "reading n =
     \<lparr>body = JArr [JObj [(''data'', JObj [(''device_id'', JInt n)])]], retrieve_after_id = None\<rparr>"

definition folder_net :: transport where
  \<comment> \<open>a folder \<^verbatim>\<open>f\<close> of three devices with the ids 11, 22 and 33\<close>
  "folder_net h r =
     (if r = first_req demo_client (devices_route ''f'') [] then
        Inr \<lparr>body = JArr [device ''DEC001'', device ''DEC002'', device ''DEC003''],
             retrieve_after_id = None\<rparr>
      else if r = probe_req demo_client ''DEC001'' then Inr (reading 11)
      else if r = probe_req demo_client ''DEC002'' then Inr (reading 22)
      else if r = probe_req demo_client ''DEC003'' then Inr (reading 33)
      else Inl ''HTTP Error 404'')"

definition demo_cached :: client where
  \<comment> \<open>the client after it has looked up id 22 in that folder\<close>
  "demo_cached =
     demo_client\<lparr>id_to_address_mapping :=
                   [''f'' \<mapsto> [(JInt 11, ''DEC001''), (JInt 22, ''DEC002'')]]\<rparr>"

definition demo_ident :: "string \<Rightarrow> int" where
  "demo_ident a =
     (if a = ''DEC001'' then 11 else if a = ''DEC002'' then 22 else if a = ''DEC003'' then 33 else 0)"

definition sparse_net :: transport where
  \<comment> \<open>a folder \<^verbatim>\<open>f\<close> of two devices, the second without any reading\<close>
  "sparse_net h r =
     (if r = first_req demo_client (devices_route ''f'') [] then
        Inr \<lparr>body = JArr [device ''DEC001'', device ''DEC002''], retrieve_after_id = None\<rparr>
      else if r = probe_req demo_client ''DEC001'' then Inr (reading 11)
      else if r = probe_req demo_client ''DEC002'' then
        Inr \<lparr>body = JArr [], retrieve_after_id = None\<rparr>
      else Inl ''HTTP Error 404'')"

definition device_record :: "string \<Rightarrow> string \<Rightarrow> json" where
  \<comment> \<open>a device as the API describes it, with its address and its serial number\<close>
  "device_record a serial =
     JObj [(''name'', JStr a),
           (''fields'', JObj [(''gerateinformation'', JObj [(''seriennummer'', JStr serial)])])]"


definition blank_net :: transport where
  \<comment> \<open>a folder \<^verbatim>\<open>f\<close> whose one device has the empty string as its address\<close>
  "blank_net h r =
     (if r = first_req demo_client (devices_route ''f'') [] then
        Inr \<lparr>body = JArr [device_record [] ''21680''], retrieve_after_id = None\<rparr>
      else Inr \<lparr>body = device_record [] ''21680'', retrieve_after_id = None\<rparr>)"

definition demo_parse :: "string \<Rightarrow> int option" where
  "demo_parse s = (if s = ''21680'' then Some 21680 else None)"

definition ascii_lower :: "string \<Rightarrow> string" where
  "ascii_lower s =
     map (\<lambda>c. if (65::nat) \<le> of_char c \<and> (of_char c :: nat) \<le> 90
               then char_of (of_char c + (32::nat)) else c) s"

definition seen_upper :: client where
  \<comment> \<open>the client after \<^verbatim>\<open>decentlab_id_from_address('DEC0054B0', 'f')\<close> on \<open>serial_net\<close>\<close>
  "seen_upper = store demo_client ''f'' (JInt 21680) ''DEC0054B0''"


definition seen_blank :: client where
  \<comment> \<open>the client after \<^verbatim>\<open>decentlab_id_from_address('', 'f')\<close> on \<open>blank_net\<close>\<close>
  "seen_blank = store demo_client ''f'' (JInt 21680) []"

definition scalar_page :: "string option \<Rightarrow> api_return" where
  "scalar_page tok = \<lparr>body = JObj [(''name'', JStr ''DEC0054B0'')], retrieve_after_id = tok\<rparr>"

definition scalar_net :: "string option \<Rightarrow> transport" where
  \<comment> \<open>answers every request with the same single record\<close>
  "scalar_net tok h r = Inr (scalar_page tok)"

section \<open>Properties of the printable representation\<close>

lemma sublist_sep:
  assumes "c \<notin> set w" and "sublist w (xs @ c # ys)"
  shows "sublist w xs \<or> sublist w ys"
proof -
  from assms(2) consider "sublist w xs" | "sublist w (c # ys)"
    | xs1 xs2 where "w = xs1 @ xs2" "suffix xs1 xs" "prefix xs2 (c # ys)"
    unfolding sublist_append by blast
  then show ?thesis
  proof cases
    case 1 then show ?thesis by simp
  next
    case 2
    then have "prefix w (c # ys) \<or> sublist w ys" by (simp add: sublist_Cons_right)
    with assms(1) show ?thesis by (cases w) auto
  next
    case 3
    with assms(1) have "xs2 = []" by (cases xs2) auto
    with 3 have "suffix w xs" by simp
    then show ?thesis by (simp add: suffix_imp_sublist)
  qed
qed

lemma masked_key_nth:
  "length (masked_key k) = length k \<and>
   (\<forall>i < length k. masked_key k ! i = (if i < length k - 3 then CHR ''*'' else k ! i))"
proof -
  have n: "nat (int (length k) - 3) = length k - 3" by simp
  show ?thesis
    unfolding masked_key_def n by (auto simp: nth_append)
qed

lemma repr_no_abcdef:
  assumes "api_key c = ''abcdef123''" "\<not> sublist ''abcdef'' (repr_str (api_location c))"
  shows "\<not> sublist ''abcdef'' (repr c)"
proof
  assume s: "sublist ''abcdef'' (repr c)"
  have mk: "masked_key (api_key c) = ''******123''"
    by (simp add: assms(1) masked_key_def eval_nat_numeral)
  have "repr c = ''ElementApi(api_location'' @ CHR ''='' # (repr_str (api_location c) @ '', api_key=******123)'')"
    by (simp add: repr_def mk)
  with s have "sublist ''abcdef'' (''ElementApi(api_location'' @ CHR ''='' # (repr_str (api_location c) @ '', api_key=******123)''))"
    by simp
  then have "sublist ''abcdef'' ''ElementApi(api_location'' \<or> sublist ''abcdef'' (repr_str (api_location c) @ '', api_key=******123)'')"
    by (rule sublist_sep[rotated]) simp
  moreover have "\<not> sublist ''abcdef'' ''ElementApi(api_location''" by code_simp
  ultimately have "sublist ''abcdef'' (repr_str (api_location c) @ CHR '','' # '' api_key=******123)'')" by simp
  then have "sublist ''abcdef'' (repr_str (api_location c)) \<or> sublist ''abcdef'' '' api_key=******123)''"
    by (rule sublist_sep[rotated]) simp
  moreover have "\<not> sublist ''abcdef'' '' api_key=******123)''" by code_simp
  ultimately show False using assms(2) by simp
qed

text \<open>
  C8, as the claim states it, fails: the printable form shows the API location in full, so
  a client with key \<^verbatim>\<open>abcdef123\<close> whose location contains \<^verbatim>\<open>abcdef\<close> has a printable form
  that contains \<^verbatim>\<open>abcdef\<close>.
\<close>

theorem repr_shows_location_counterexample:
  "api_key (init ''abcdef'' ''abcdef123'') = ''abcdef123'' \<and>
   sublist ''abcdef'' (repr (init ''abcdef'' ''abcdef123''))"
  by code_simp

text \<open>
  C8, amended. The printable form of every client is
  \<^verbatim>\<open>ElementApi(api_location=<repr of the location>, api_key=<shown>)\<close>, where \<open>shown\<close> has
  the length of the key, a \<^verbatim>\<open>*\<close> at every position before the final three and the key's
  own character at the final three. For the key \<^verbatim>\<open>abcdef123\<close> the printable form does not
  contain \<^verbatim>\<open>abcdef\<close> whenever the rendered location does not.
\<close>

theorem repr_redacts_key:
  "repr c = ''ElementApi(api_location='' @ repr_str (api_location c) @ '', api_key=''
              @ masked_key (api_key c) @ '')''
   \<and> length (masked_key (api_key c)) = length (api_key c)
   \<and> (\<forall>i < length (api_key c).
         masked_key (api_key c) ! i
           = (if i < length (api_key c) - 3 then CHR ''*'' else api_key c ! i))
   \<and> (api_key c = ''abcdef123'' \<and> \<not> sublist ''abcdef'' (repr_str (api_location c))
        \<longrightarrow> \<not> sublist ''abcdef'' (repr c))"
proof (intro conjI)
  show "repr c = ''ElementApi(api_location='' @ repr_str (api_location c) @ '', api_key=''
              @ masked_key (api_key c) @ '')''"
    by (simp add: repr_def)
  show "length (masked_key (api_key c)) = length (api_key c)"
    using masked_key_nth by blast
  show "\<forall>i < length (api_key c).
         masked_key (api_key c) ! i
           = (if i < length (api_key c) - 3 then CHR ''*'' else api_key c ! i)"
    using masked_key_nth by blast
  show "api_key c = ''abcdef123'' \<and> \<not> sublist ''abcdef'' (repr_str (api_location c))
        \<longrightarrow> \<not> sublist ''abcdef'' (repr c)"
    using repr_no_abcdef by blast
qed

theorem repr_redacts_key_witness:
  "api_key demo_client = ''abcdef123''
   \<and> \<not> sublist ''abcdef'' (repr_str (api_location demo_client))
   \<and> masked_key (api_key demo_client) = ''******123''
   \<and> \<not> sublist ''abcdef'' (repr demo_client)"
proof -
  have a: "api_key demo_client = ''abcdef123''"
    by (simp add: demo_client_def init_def)
  have b: "\<not> sublist ''abcdef'' (repr_str (api_location demo_client))"
    by code_simp
  have m: "masked_key (api_key demo_client) = ''******123''"
    by code_simp
  from repr_redacts_key[of demo_client] a b have "\<not> sublist ''abcdef'' (repr demo_client)"
    by blast
  with a b m show ?thesis by blast
qed

section \<open>Properties of the paginator\<close>

lemma is_sequence_records: "is_sequence (body p) \<Longrightarrow> body p = JArr (records p)"
  by (cases "body p") (auto simp: records_def)

lemma pages_all:
  "feeds net req_of tok log rest \<Longrightarrow> body out = JArr xs \<Longrightarrow>
   pages net req_of None out tok i log
     = Some (Inr (out\<lparr>body := JArr (xs @ concat (map records rest))\<rparr>), log @ reqs_from req_of tok rest)"
proof (induction rest arbitrary: tok log out xs i)
  case Nil
  then show ?case by (subst pages.simps) simp
next
  case (Cons p ps)
  from Cons.prems have t: "truthy tok" and n: "net log (req_of (the tok)) = Inr p"
    and s: "body p = JArr (records p)"
    and f: "feeds net req_of (retrieve_after_id p) (log @ [req_of (the tok)]) ps"
    by (auto dest: is_sequence_records)
  have b: "body (out\<lparr>body := JArr (xs @ records p)\<rparr>) = JArr (xs @ records p)" by simp
  show ?case
    apply (subst pages.simps)
    using t n s Cons.prems(2) Cons.IH[OF f b, of "i + 1"]
    by (simp add: page_cap_reached_def)
qed

lemma pages_capped:
  "feeds net req_of tok log rest \<Longrightarrow> body out = JArr xs \<Longrightarrow> i \<le> m \<Longrightarrow> m \<noteq> 0 \<Longrightarrow>
   nat (m - i) < length rest \<Longrightarrow>
   pages net req_of (Some m) out tok i log
     = Some (Inr (out\<lparr>body := JArr (xs @ concat (map records (take (nat (m - i)) rest)))\<rparr>),
             log @ take (nat (m - i)) (reqs_from req_of tok rest))"
proof (induction rest arbitrary: tok log out xs i)
  case Nil
  then show ?case by simp
next
  case (Cons p ps)
  from Cons.prems have t: "truthy tok" and n: "net log (req_of (the tok)) = Inr p"
    and s: "body p = JArr (records p)"
    and f: "feeds net req_of (retrieve_after_id p) (log @ [req_of (the tok)]) ps"
    by (auto dest: is_sequence_records)
  show ?case
  proof (cases "i = m")
    case True
    then show ?thesis
      apply (subst pages.simps)
      using t Cons.prems by (simp add: page_cap_reached_def)
  next
    case False
    with Cons.prems have lt: "i < m" by simp
    have b: "body (out\<lparr>body := JArr (xs @ records p)\<rparr>) = JArr (xs @ records p)" by simp
    from lt Cons.prems have l: "nat (m - (i + 1)) < length ps" by auto
    from lt have tk: "nat (m - i) = Suc (nat (m - (i + 1)))" by auto
    from lt have le: "i + 1 \<le> m" by simp
    show ?thesis
      apply (subst pages.simps)
      using t n s lt Cons.prems(2) Cons.IH[OF f b le Cons.prems(4) l]
      by (simp add: page_cap_reached_def tk)
  qed
qed

lemma source_feeds:
  assumes "\<forall>p \<in> set ps. is_sequence (body p)"
    and "\<forall>p \<in> set (butlast (p0 # ps)). truthy (retrieve_after_id p)"
    and "\<not> truthy (retrieve_after_id (last (p0 # ps)))"
    and "\<forall>j < length ps. net (lg @ take j (map (\<lambda>p. req_of (the (retrieve_after_id p))) (butlast (p0 # ps))))
            (map (\<lambda>p. req_of (the (retrieve_after_id p))) (butlast (p0 # ps)) ! j) = Inr (ps ! j)"
  shows "feeds net req_of (retrieve_after_id p0) lg ps \<and>
         reqs_from req_of (retrieve_after_id p0) ps = map (\<lambda>p. req_of (the (retrieve_after_id p))) (butlast (p0 # ps))"
  using assms
proof (induction ps arbitrary: p0 lg)
  case Nil
  then show ?case by simp
next
  case (Cons p ps)
  let ?r = "\<lambda>p. req_of (the (retrieve_after_id p))"
  have 1: "\<forall>q \<in> set ps. is_sequence (body q)" using Cons.prems(1) by simp
  have 2: "\<forall>q \<in> set (butlast (p # ps)). truthy (retrieve_after_id q)" using Cons.prems(2) by simp
  have 3: "\<not> truthy (retrieve_after_id (last (p # ps)))" using Cons.prems(3) by simp
  have 4: "\<forall>j < length ps. net ((lg @ [?r p0]) @ take j (map ?r (butlast (p # ps))))
            (map ?r (butlast (p # ps)) ! j) = Inr (ps ! j)"
  proof (intro allI impI)
    fix j assume "j < length ps"
    then have "Suc j < length (p # ps)" by simp
    with Cons.prems(4) have "net (lg @ take (Suc j) (map ?r (butlast (p0 # p # ps))))
            (map ?r (butlast (p0 # p # ps)) ! Suc j) = Inr ((p # ps) ! Suc j)" by blast
    then show "net ((lg @ [?r p0]) @ take j (map ?r (butlast (p # ps))))
            (map ?r (butlast (p # ps)) ! j) = Inr (ps ! j)" by simp
  qed
  from Cons.prems(4) have z: "net lg (?r p0) = Inr p" by force
  from Cons.IH[OF 1 2 3 4] z Cons.prems show ?case by simp
qed

lemma source_first:
  assumes "paginated_source net c route params log ps"
  obtains p0 rest where "ps = p0 # rest"
    and "net log (first_req c route params) = Inr p0"
    and "body p0 = JArr (records p0)"
    and "feeds net (next_req c route params) (retrieve_after_id p0)
           (log @ [first_req c route params]) rest"
    and "reqs_from (next_req c route params) (retrieve_after_id p0) rest
           = map (\<lambda>p. next_req c route params (the (retrieve_after_id p))) (butlast (p0 # rest))"
proof -
  from assms obtain p0 rest where ps: "ps = p0 # rest"
    by (cases ps) (auto simp: paginated_source_def)
  let ?r = "\<lambda>p. next_req c route params (the (retrieve_after_id p))"
  have R: "page_reqs c route params ps = first_req c route params # map ?r (butlast (p0 # rest))"
    by (simp add: page_reqs_def ps)
  from assms have first: "net log (first_req c route params) = Inr p0"
    unfolding paginated_source_def R by (auto simp: ps)
  from assms have seq0: "body p0 = JArr (records p0)"
    by (auto simp: paginated_source_def ps dest: is_sequence_records)
  have 1: "\<forall>p \<in> set rest. is_sequence (body p)"
    using assms by (simp add: paginated_source_def ps)
  have 2: "\<forall>p \<in> set (butlast (p0 # rest)). truthy (retrieve_after_id p)"
    using assms by (simp add: paginated_source_def ps)
  have 3: "\<not> truthy (retrieve_after_id (last (p0 # rest)))"
    using assms by (simp add: paginated_source_def ps)
  have 4: "\<forall>j < length rest.
             net ((log @ [first_req c route params]) @ take j (map ?r (butlast (p0 # rest))))
               (map ?r (butlast (p0 # rest)) ! j) = Inr (rest ! j)"
  proof (intro allI impI)
    fix j assume "j < length rest"
    then have "Suc j < length ps" by (simp add: ps)
    with assms have "net (log @ take (Suc j) (page_reqs c route params ps))
        (page_reqs c route params ps ! Suc j) = Inr (ps ! Suc j)"
      unfolding paginated_source_def by blast
    then have "net (log @ take (Suc j) (first_req c route params # map ?r (butlast (p0 # rest))))
        ((first_req c route params # map ?r (butlast (p0 # rest))) ! Suc j) = Inr ((p0 # rest) ! Suc j)"
      unfolding R unfolding ps .
    then show "net ((log @ [first_req c route params]) @ take j (map ?r (butlast (p0 # rest))))
            (map ?r (butlast (p0 # rest)) ! j) = Inr (rest ! j)"
      by (simp del: butlast.simps)
  qed
  from source_feeds[OF 1 2 3 4] ps first seq0 that show thesis by blast
qed

lemma make_req_unbounded:
  assumes "paginated_source net c route params log ps"
  shows "make_req net c route params None log
           = Some (Inr ((hd ps)\<lparr>body := JArr (concat (map records ps))\<rparr>),
                   log @ page_reqs c route params ps)"
proof -
  from assms obtain p0 rest where ps: "ps = p0 # rest"
    and first: "net log (first_req c route params) = Inr p0"
    and seq0: "body p0 = JArr (records p0)"
    and f: "feeds net (next_req c route params) (retrieve_after_id p0)
           (log @ [first_req c route params]) rest"
    and rq: "reqs_from (next_req c route params) (retrieve_after_id p0) rest
           = map (\<lambda>p. next_req c route params (the (retrieve_after_id p))) (butlast (p0 # rest))"
    by (rule source_first)
  show ?thesis
    unfolding make_req_def Let_def
    using first pages_all[OF f seq0, of 1] rq
    by (simp add: ps page_reqs_def)
qed

lemma make_req_capped:
  assumes "paginated_source net c route params log ps" and m: "1 \<le> m" "m < int (length ps)"
  shows "make_req net c route params (Some m) log
           = Some (Inr ((hd ps)\<lparr>body := JArr (concat (map records (take (nat m) ps)))\<rparr>),
                   log @ take (nat m) (page_reqs c route params ps))"
proof -
  from assms(1) obtain p0 rest where ps: "ps = p0 # rest"
    and first: "net log (first_req c route params) = Inr p0"
    and seq0: "body p0 = JArr (records p0)"
    and f: "feeds net (next_req c route params) (retrieve_after_id p0)
           (log @ [first_req c route params]) rest"
    and rq: "reqs_from (next_req c route params) (retrieve_after_id p0) rest
           = map (\<lambda>p. next_req c route params (the (retrieve_after_id p))) (butlast (p0 # rest))"
    by (rule source_first)
  from m have a: "(1::int) \<le> m" and b: "m \<noteq> 0" and l: "nat (m - 1) < length rest"
    by (auto simp: ps)
  from m have tk: "nat m = Suc (nat (m - 1))" by auto
  show ?thesis
    unfolding make_req_def Let_def
    using first pages_capped[OF f seq0 a b l] rq
    by (simp add: ps page_reqs_def tk)
qed

lemma three_page_source: "paginated_source three_page_net demo_client ''tags'' [] [] three_pages"
  unfolding paginated_source_def
  by (simp add: three_pages_def three_page_net_def truthy_def page_reqs_def All_less_Suc
        eval_nat_numeral)

text \<open>
  C2. When the transport emits \<open>k\<close> pages of record sequences, the first \<open>k - 1\<close> with a
  token and the last without, \<^verbatim>\<open>_make_req\<close> with \<^verbatim>\<open>max_pages=None\<close> returns the first
  envelope with the records of all \<open>k\<close> pages in page order, after the \<open>k\<close> requests; with
  \<^verbatim>\<open>max_pages=m\<close>, \<open>1 \<le> m < k\<close>, it returns the records of the first \<open>m\<close> pages after exactly
  the first \<open>m\<close> requests (one request for \<open>m = 1\<close>).
\<close>

theorem pagination_merges_pages_in_order:
  assumes "paginated_source net c route params log ps"
  shows "make_req net c route params None log
           = Some (Inr ((hd ps)\<lparr>body := JArr (concat (map records ps))\<rparr>),
                   log @ page_reqs c route params ps)
         \<and> length (page_reqs c route params ps) = length ps
         \<and> (\<forall>m. 1 \<le> m \<and> m < int (length ps) \<longrightarrow>
               make_req net c route params (Some m) log
                 = Some (Inr ((hd ps)\<lparr>body := JArr (concat (map records (take (nat m) ps)))\<rparr>),
                         log @ take (nat m) (page_reqs c route params ps)))"
proof -
  from assms have "ps \<noteq> []" by (simp add: paginated_source_def)
  then have "length (page_reqs c route params ps) = length ps"
    by (simp add: page_reqs_def)
  with make_req_unbounded[OF assms] make_req_capped[OF assms] show ?thesis by blast
qed

theorem pagination_merges_pages_in_order_witness:
  "paginated_source three_page_net demo_client ''tags'' [] [] three_pages
   \<and> make_req three_page_net demo_client ''tags'' [] None []
       = Some (Inr \<lparr>body = JArr [JInt 1, JInt 2, JInt 3, JInt 4], retrieve_after_id = Some ''a''\<rparr>,
               [first_req demo_client ''tags'' [],
                next_req demo_client ''tags'' [] ''a'',
                next_req demo_client ''tags'' [] ''b''])
   \<and> make_req three_page_net demo_client ''tags'' [] (Some 2) []
       = Some (Inr \<lparr>body = JArr [JInt 1, JInt 2, JInt 3], retrieve_after_id = Some ''a''\<rparr>,
               [first_req demo_client ''tags'' [], next_req demo_client ''tags'' [] ''a''])
   \<and> make_req three_page_net demo_client ''tags'' [] (Some 1) []
       = Some (Inr \<lparr>body = JArr [JInt 1, JInt 2], retrieve_after_id = Some ''a''\<rparr>,
               [first_req demo_client ''tags'' []])"
proof -
  note t = pagination_merges_pages_in_order[OF three_page_source]
  from t have a: "make_req three_page_net demo_client ''tags'' [] None []
       = Some (Inr \<lparr>body = JArr [JInt 1, JInt 2, JInt 3, JInt 4], retrieve_after_id = Some ''a''\<rparr>,
               [first_req demo_client ''tags'' [],
                next_req demo_client ''tags'' [] ''a'',
                next_req demo_client ''tags'' [] ''b''])"
    by (simp add: three_pages_def records_def page_reqs_def)
  from t have "(1::int) \<le> 2 \<and> 2 < int (length three_pages) \<longrightarrow>
      make_req three_page_net demo_client ''tags'' [] (Some 2) []
        = Some (Inr ((hd three_pages)\<lparr>body := JArr (concat (map records (take (nat 2) three_pages)))\<rparr>),
                [] @ take (nat 2) (page_reqs demo_client ''tags'' [] three_pages))"
    by blast
  then have b: "make_req three_page_net demo_client ''tags'' [] (Some 2) []
       = Some (Inr \<lparr>body = JArr [JInt 1, JInt 2, JInt 3], retrieve_after_id = Some ''a''\<rparr>,
               [first_req demo_client ''tags'' [], next_req demo_client ''tags'' [] ''a''])"
    by (simp add: three_pages_def records_def page_reqs_def eval_nat_numeral)
  from t have "(1::int) \<le> 1 \<and> 1 < int (length three_pages) \<longrightarrow>
      make_req three_page_net demo_client ''tags'' [] (Some 1) []
        = Some (Inr ((hd three_pages)\<lparr>body := JArr (concat (map records (take (nat 1) three_pages)))\<rparr>),
                [] @ take (nat 1) (page_reqs demo_client ''tags'' [] three_pages))"
    by blast
  then have c: "make_req three_page_net demo_client ''tags'' [] (Some 1) []
       = Some (Inr \<lparr>body = JArr [JInt 1, JInt 2], retrieve_after_id = Some ''a''\<rparr>,
               [first_req demo_client ''tags'' []])"
    by (simp add: three_pages_def records_def page_reqs_def eval_nat_numeral)
  from three_page_source a b c show ?thesis by blast
qed

lemma not_sequence_case:
  "\<not> is_sequence b \<Longrightarrow>
   (case b of JArr xs \<Rightarrow> f xs | JNull \<Rightarrow> d | JBool x \<Rightarrow> d | JInt x \<Rightarrow> d | JStr x \<Rightarrow> d
    | JObj x \<Rightarrow> d) = d"
  by (cases b) simp_all

lemma pages_cap_cong_le:
  assumes run: "pages net req_of mp out tok i log = Some y"
    and eq: "\<And>j. page_cap_reached mp j = page_cap_reached mp' j"
  shows "pages net req_of mp' out tok i log = Some y"
  using run eq
proof (induction net req_of mp out tok i log y rule: pages.raw_induct[rotated, consumes 1])
  case (1 pages' net req_of mp out tok i log y)
  note IH = 1(1) and run = 1(2) and eq = 1(3)
  from eq have cap: "page_cap_reached mp' i = page_cap_reached mp i" by simp
  show ?case
  proof (cases "truthy tok \<and> \<not> page_cap_reached mp i")
    case False
    with run cap show ?thesis
      by (subst pages.simps) (auto split: if_splits)
  next
    case go: True
    show ?thesis
    proof (cases "net log (req_of (the tok))")
      case (Inl m)
      with run go cap show ?thesis
        by (subst pages.simps) (simp add: Let_def)
    next
      case data: (Inr data)
      show ?thesis
      proof (cases "is_sequence (body out)")
        case False
        with run go cap data show ?thesis
          by (subst pages.simps) (simp add: Let_def not_sequence_case)
      next
        case True
        then obtain xs where xs: "body out = JArr xs" by (cases "body out") auto
        show ?thesis
        proof (cases "py_iter (body data)")
          case (Inl e)
          with run go cap data xs show ?thesis
            by (subst pages.simps) (simp add: Let_def)
        next
          case (Inr ys)
          with run go data xs
          have "pages' net req_of mp (out\<lparr>body := JArr (xs @ ys)\<rparr>) (retrieve_after_id data)
                  (i + 1) (log @ [req_of (the tok)]) = Some y"
            by (simp add: Let_def)
          from IH[OF this eq]
          have "pages net req_of mp' (out\<lparr>body := JArr (xs @ ys)\<rparr>) (retrieve_after_id data)
                  (i + 1) (log @ [req_of (the tok)]) = Some y" .
          with go cap data xs Inr show ?thesis
            by (subst pages.simps) (simp add: Let_def)
        qed
      qed
    qed
  qed
qed

lemma pages_cap_cong:
  assumes "\<And>j. page_cap_reached mp j = page_cap_reached mp' j"
  shows "pages net req_of mp out tok i log = pages net req_of mp' out tok i log"
proof (cases "pages net req_of mp out tok i log")
  case None
  show ?thesis
  proof (cases "pages net req_of mp' out tok i log")
    case None
    with \<open>pages net req_of mp out tok i log = None\<close> show ?thesis by simp
  next
    case (Some y)
    from pages_cap_cong_le[OF Some, of mp] assms
    have "pages net req_of mp out tok i log = Some y" by simp
    with Some show ?thesis by simp
  qed
next
  case (Some y)
  from pages_cap_cong_le[OF Some, of mp'] assms show ?thesis using Some by simp
qed

lemma make_req_cap_cong:
  assumes "\<And>j. page_cap_reached mp j = page_cap_reached mp' j"
  shows "make_req net c route params mp log = make_req net c route params mp' log"
  unfolding make_req_def Let_def
  using pages_cap_cong[OF assms] by (auto split: sum.splits)

text \<open>
  C9. \<^verbatim>\<open>max_pages=0\<close> is no cap: on every transport, \<^verbatim>\<open>_make_req\<close>, and with it
  \<^verbatim>\<open>get_readings\<close>, does with \<^verbatim>\<open>max_pages=0\<close> exactly what it does with \<^verbatim>\<open>max_pages=None\<close>
  (the same result and the same requests, or no return in both cases); the cap test never
  holds, whatever the page counter.
\<close>

theorem max_pages_zero_is_no_cap:
  "make_req net c route params (Some 0) log = make_req net c route params None log
   \<and> get_readings net c device_name sort_by sort_direction start_iso end_iso limit (Some 0) log
       = get_readings net c device_name sort_by sort_direction start_iso end_iso limit None log
   \<and> \<not> page_cap_reached (Some 0) i"
proof -
  have "\<And>j. page_cap_reached (Some 0) j = page_cap_reached None j"
    by (simp add: page_cap_reached_def)
  from make_req_cap_cong[OF this] show ?thesis
    by (simp add: get_readings_def page_cap_reached_def)
qed

theorem max_pages_zero_is_no_cap_witness:
  "make_req three_page_net demo_client ''tags'' [] (Some 0) []
     = Some (Inr \<lparr>body = JArr [JInt 1, JInt 2, JInt 3, JInt 4], retrieve_after_id = Some ''a''\<rparr>,
             [first_req demo_client ''tags'' [],
              next_req demo_client ''tags'' [] ''a'',
              next_req demo_client ''tags'' [] ''b''])"
proof -
  have "make_req three_page_net demo_client ''tags'' [] None []
     = Some (Inr \<lparr>body = JArr [JInt 1, JInt 2, JInt 3, JInt 4], retrieve_after_id = Some ''a''\<rparr>,
             [first_req demo_client ''tags'' [],
              next_req demo_client ''tags'' [] ''a'',
              next_req demo_client ''tags'' [] ''b''])"
    using make_req_unbounded[OF three_page_source]
    by (simp add: three_pages_def records_def page_reqs_def)
  with max_pages_zero_is_no_cap[of three_page_net demo_client "''tags''" "[]" "[]"]
  show ?thesis by simp
qed

text \<open>
  C5. Let the first response hold a single record. If it carries a token, the page cap
  allows a continuation and the transport answers the continuation request, then
  \<^verbatim>\<open>_make_req\<close> raises the pagination \<^verbatim>\<open>TypeError\<close> right after that one continuation
  request and returns no data. If it carries no token, \<^verbatim>\<open>_make_req\<close> returns the first
  envelope as it is, after the one request.
\<close>

theorem scalar_body_pagination_fails:
  assumes "net log (first_req c route params) = Inr first" and "\<not> is_sequence (body first)"
  shows "(truthy (retrieve_after_id first) \<and> \<not> page_cap_reached max_pages 1 \<and>
          net (log @ [first_req c route params])
              (next_req c route params (the (retrieve_after_id first))) = Inr data
          \<longrightarrow> make_req net c route params max_pages log
                = Some (Inl PaginationTypeError,
                        log @ [first_req c route params,
                               next_req c route params (the (retrieve_after_id first))]))
       \<and> (\<not> truthy (retrieve_after_id first)
          \<longrightarrow> make_req net c route params max_pages log
                = Some (Inr first, log @ [first_req c route params]))"
proof (intro conjI impI)
  assume a: "truthy (retrieve_after_id first) \<and> \<not> page_cap_reached max_pages 1 \<and>
          net (log @ [first_req c route params])
              (next_req c route params (the (retrieve_after_id first))) = Inr data"
  show "make_req net c route params max_pages log
                = Some (Inl PaginationTypeError,
                        log @ [first_req c route params,
                               next_req c route params (the (retrieve_after_id first))])"
    unfolding make_req_def Let_def
    apply (subst pages.simps)
    using assms a by (cases "body first") (auto simp: Let_def)
next
  assume a: "\<not> truthy (retrieve_after_id first)"
  show "make_req net c route params max_pages log
                = Some (Inr first, log @ [first_req c route params])"
    unfolding make_req_def Let_def
    apply (subst pages.simps)
    using assms a by simp
qed

theorem scalar_body_pagination_fails_witness:
  "make_req (scalar_net (Some ''x'')) demo_client ''devices/dec0054b0'' [] None []
     = Some (Inl PaginationTypeError,
             [first_req demo_client ''devices/dec0054b0'' [],
              next_req demo_client ''devices/dec0054b0'' [] ''x''])
   \<and> make_req (scalar_net None) demo_client ''devices/dec0054b0'' [] None []
     = Some (Inr (scalar_page None), [first_req demo_client ''devices/dec0054b0'' []])"
proof -
  have 1: "scalar_net tok [] (first_req demo_client ''devices/dec0054b0'' []) = Inr (scalar_page tok)"
    for tok by (simp add: scalar_net_def)
  have 2: "\<not> is_sequence (body (scalar_page tok))" for tok
    by (simp add: scalar_page_def)
  have 3: "truthy (retrieve_after_id (scalar_page (Some ''x''))) \<and> \<not> page_cap_reached None 1 \<and>
      scalar_net (Some ''x'') ([] @ [first_req demo_client ''devices/dec0054b0'' []])
        (next_req demo_client ''devices/dec0054b0'' [] (the (retrieve_after_id (scalar_page (Some ''x'')))))
        = Inr (scalar_page (Some ''x''))"
    by (simp add: scalar_net_def scalar_page_def truthy_def page_cap_reached_def)
  have 4: "\<not> truthy (retrieve_after_id (scalar_page None))"
    by (simp add: scalar_page_def truthy_def)
  from scalar_body_pagination_fails[where net = "scalar_net (Some ''x'')" and log = "[]"
      and max_pages = None and data = "scalar_page (Some ''x'')", OF 1[of "Some ''x''"] 2[of "Some ''x''"]] 3
  have a: "make_req (scalar_net (Some ''x'')) demo_client ''devices/dec0054b0'' [] None []
     = Some (Inl PaginationTypeError,
             [first_req demo_client ''devices/dec0054b0'' [],
              next_req demo_client ''devices/dec0054b0'' [] ''x''])"
    by (simp add: scalar_page_def)
  from scalar_body_pagination_fails[where net = "scalar_net None" and log = "[]" and max_pages = None,
      OF 1[of None] 2[of None]] 4
  have b: "make_req (scalar_net None) demo_client ''devices/dec0054b0'' [] None []
     = Some (Inr (scalar_page None), [first_req demo_client ''devices/dec0054b0'' []])"
    by simp
  from a b show ?thesis by blast
qed

lemma make_req_one_page:
  "make_req net c route params (Some 1) log =
     (case net log (first_req c route params) of
        Inl m \<Rightarrow> Some (Inl (TransportError m), log @ [first_req c route params])
      | Inr out \<Rightarrow> Some (Inr out, log @ [first_req c route params]))"
  unfolding make_req_def Let_def
  apply (subst pages.simps)
  by (auto simp: page_cap_reached_def split: sum.splits)

section \<open>Properties of the identifier cache\<close>

lemma map_of_invert_fold:
  "map_of (foldl (\<lambda>acc kv. setitem (snd kv) (fst kv) acc) acc d)
     = map_of acc ++ map_of (rev (map (\<lambda>kv. (snd kv, fst kv)) d))"
proof (induction d arbitrary: acc)
  case Nil
  then show ?case by simp
next
  case (Cons kv d)
  have "map_of (setitem (snd kv) (fst kv) acc) = (map_of acc)(snd kv \<mapsto> fst kv)"
    by (simp add: setitem_def update_conv')
  then show ?case
    unfolding foldl_Cons Cons.IH
    by (auto simp: map_of_append map_add_def fun_eq_iff split: option.splits)
qed

lemma map_of_invert:
  assumes "distinct (map snd d)"
  shows "map_of (invert d) a = Some k \<longleftrightarrow> (k, a) \<in> set d"
proof -
  let ?sw = "rev (map (\<lambda>kv. (snd kv, fst kv)) d)"
  have m: "map_of (invert d) = map_of ?sw"
    by (simp add: invert_def map_of_invert_fold)
  have "map fst ?sw = rev (map snd d)" by (simp add: rev_map)
  with assms have "distinct (map fst ?sw)" by simp
  then have "map_of ?sw a = Some k \<longleftrightarrow> (a, k) \<in> set ?sw"
    by (rule map_of_eq_Some_iff)
  also have "\<dots> \<longleftrightarrow> (k, a) \<in> set d" by force
  finally show ?thesis by (simp add: m)
qed

lemma injective_dict_values:
  assumes "distinct (map fst d)" and "inj_on (map_of d) (dom (map_of d))"
  shows "distinct (map snd d)"
proof -
  from assms(1) have dd: "distinct d" by (rule distinct_map[THEN iffD1, THEN conjunct1])
  have "inj_on snd (set d)"
  proof (rule inj_onI)
    fix x y assume x: "x \<in> set d" and y: "y \<in> set d" and e: "snd x = snd y"
    from x have mx: "map_of d (fst x) = Some (snd x)"
      by (simp add: map_of_eq_Some_iff[OF assms(1)])
    from y have my: "map_of d (fst y) = Some (snd y)"
      by (simp add: map_of_eq_Some_iff[OF assms(1)])
    from mx my e assms(2) have "fst x = fst y"
      by (auto simp: inj_on_def dom_def)
    with e show "x = y" by (simp add: prod_eq_iff)
  qed
  with dd show ?thesis by (simp add: distinct_map)
qed

lemma wf_cache_init: "wf_cache (init loc key)"
  by (simp add: wf_cache_def init_def)

lemma wf_cache_store: "wf_cache c \<Longrightarrow> wf_cache (store c folder k a)"
  by (auto simp: wf_cache_def store_def setitem_def distinct_update split: option.splits)

lemma wf_cache_touch: "wf_cache c \<Longrightarrow> wf_cache (touch c folder)"
  by (auto simp: wf_cache_def touch_def split: option.splits)

lemma probe_invariant:
  assumes "\<And>c k a. P c \<Longrightarrow> P (store c folder k a)" and "\<And>c. P c \<Longrightarrow> P (touch c folder)"
  shows "P c \<Longrightarrow> probe net n folder ds c log = Some (r, c', log') \<Longrightarrow> P c'"
proof (induction ds arbitrary: c log)
  case Nil
  then show ?case by simp
next
  case (Cons i rest)
  note skip = Cons.IH[OF Cons.prems(1)]
  note step = Cons.IH[OF assms(1)[OF Cons.prems(1)]]
  from Cons.prems(2) show ?case
    using Cons.prems(1) assms
    by (auto split: sum.splits json.splits option.splits if_splits prod.splits
             dest: skip step)
qed

lemma address_from_invariant:
  assumes "\<And>c k a. P c \<Longrightarrow> P (store c folder k a)" and "\<And>c. P c \<Longrightarrow> P (touch c folder)"
    and "P c" and "address_from_decentlab_id net c n folder log = Some (r, c', log')"
  shows "P c'"
  using assms(3,4) probe_invariant[of P folder, OF assms(1,2)]
  by (auto simp: address_from_decentlab_id_def split: option.splits sum.splits prod.splits)

lemma decentlab_id_invariant:
  assumes "\<And>c k a. P c \<Longrightarrow> P (store c folder k a)"
    and "P c" and "decentlab_id_from_address net parse lower c address folder log = Some (r, c', log')"
  shows "P c'"
  using assms
  by (auto simp: decentlab_id_from_address_def Let_def
           split: option.splits sum.splits prod.splits if_splits)

lemma call_invariant:
  assumes "\<And>c k a. P c \<Longrightarrow> P (store c folder k a)" and "\<And>c. P c \<Longrightarrow> P (touch c folder)"
    and "call folder c c'" and "P c"
  shows "P c'"
  using assms(3)
proof cases
  case (forward net parse lower address log r log')
  from decentlab_id_invariant[of P folder, OF assms(1) assms(4) forward] show ?thesis .
next
  case (reverse net decentlab_id log r' log')
  from address_from_invariant[of P folder, OF assms(1) assms(2) assms(4) reverse] show ?thesis .
qed

lemma reachable_wf_cache: "reachable c \<Longrightarrow> wf_cache c"
proof (induction rule: reachable.induct)
  case (fresh loc key)
  show ?case by (rule wf_cache_init)
next
  case (after c folder c')
  from call_invariant[of wf_cache, OF wf_cache_store wf_cache_touch after.hyps(2) after.IH]
  show ?case .
qed

lemma reverse_lookup_iff:
  assumes "wf_cache c" and "inj_on (forward_lookup c f) (dom (forward_lookup c f))"
  shows "reverse_lookup c f a = Some k \<longleftrightarrow> forward_lookup c f k = Some a"
proof (cases "id_to_address_mapping c f")
  case None
  then show ?thesis
    by (simp add: reverse_lookup_def forward_lookup_def address_to_id_mapping_def)
next
  case (Some d)
  with assms(1) have dk: "distinct (map fst d)" by (simp add: wf_cache_def)
  from Some have fl: "forward_lookup c f = map_of d"
    by (simp add: forward_lookup_def fun_eq_iff)
  with assms(2) have "inj_on (map_of d) (dom (map_of d))" by simp
  with dk have dv: "distinct (map snd d)" by (rule injective_dict_values)
  have "reverse_lookup c f a = map_of (invert d) a"
    by (simp add: reverse_lookup_def address_to_id_mapping_def Some)
  with map_of_invert[OF dv, of a k] dk show ?thesis
    by (simp add: fl)
qed

text \<open>
  C7. The client stores the forward map only; the reverse view is computed from it on
  every read. At every reachable state of a client and for every folder \<open>f\<close> whose forward
  map is injective, the reverse view maps \<open>(f, a)\<close> to the id \<open>k\<close> if and only if the forward
  map maps \<open>(f, k)\<close> to \<open>a\<close>.
\<close>

theorem reverse_view_is_inversion:
  assumes "reachable c" and "inj_on (forward_lookup c f) (dom (forward_lookup c f))"
  shows "address_to_id_mapping c f = map_option invert (id_to_address_mapping c f)
         \<and> (reverse_lookup c f a = Some k \<longleftrightarrow> forward_lookup c f k = Some a)"
  using reverse_lookup_iff[OF reachable_wf_cache[OF assms(1)] assms(2)]
  by (simp add: address_to_id_mapping_def)

section \<open>Properties of the probe loop\<close>

lemma get_readings_probe:
  "get_readings net c a ''measured_at'' ''asc'' None None 1 (Some 1) log =
     (case net log (probe_req c a) of
        Inl m \<Rightarrow> Some (Inl (TransportError m), log @ [probe_req c a])
      | Inr out \<Rightarrow> Some (Inr out, log @ [probe_req c a]))"
  by (simp add: get_readings_def probe_req_def make_req_one_page split: sum.splits)

lemma probe_req_store [simp]: "probe_req (store c folder k a) x = probe_req c x"
  by (simp add: probe_req_def first_req_def store_def)

lemma probe_req_touch [simp]: "probe_req (touch c folder) x = probe_req c x"
  by (simp add: probe_req_def first_req_def touch_def)

lemma probe_req_inj: "probe_req c a = probe_req c b \<longleftrightarrow> a = b"
  by (simp add: probe_req_def first_req_def readings_route_def join_def)

lemma subscript_error: "subscript x k = Inl e \<Longrightarrow> e = KeyError \<or> e = TypeError"
  by (cases x) (auto split: option.splits)

lemma subscript0_error:
  "subscript0 x = Inl e \<Longrightarrow> e = KeyError \<or> e = TypeError \<or> e = IndexError"
  by (induction x rule: subscript0.induct) auto

lemma hash_key_error: "hash_key v = Inl e \<Longrightarrow> e = TypeError"
  by (cases v) auto

lemma reading_device_id_error:
  "reading_device_id r = Inl e \<Longrightarrow> e = KeyError \<or> e = TypeError \<or> e = IndexError"
  by (auto simp: reading_device_id_def and_then_def split: sum.splits
           dest: subscript_error subscript0_error)

lemma probe_step:
  assumes "subscript i ''name'' = Inr (JStr a)" and "\<not> already_requested c folder a"
    and "net log (probe_req c a) = Inr resp" and "reading_device_id resp = Inr v"
    and "hash_key v = Inr k"
  shows "probe net n folder (i # rest) c log =
           (if eq_int v n then Some (Inr a, store c folder k a, log @ [probe_req c a])
            else probe net n folder rest (store c folder k a) (log @ [probe_req c a]))"
  using assms by (simp add: get_readings_probe)

lemma cached_address_empty:
  "id_to_address_mapping c folder = None \<Longrightarrow> cached_address c n folder = None"
  by (simp add: cached_address_def)

lemma probe_two:
  assumes empty: "id_to_address_mapping c folder = None"
    and names: "subscript d1 ''name'' = Inr (JStr a1)" "subscript d2 ''name'' = Inr (JStr a2)"
    and dist: "a1 \<noteq> a2"
    and r1: "net log1 (probe_req c a1) = Inr r1" "reading_device_id r1 = Inr (JInt 11)"
    and r2: "net (log1 @ [probe_req c a1]) (probe_req c a2) = Inr r2"
            "reading_device_id r2 = Inr (JInt 22)"
  shows "probe net 22 folder (d1 # d2 # rest) c log1
           = Some (Inr a2,
                   c\<lparr>id_to_address_mapping :=
                       (id_to_address_mapping c)(folder \<mapsto> [(JInt 11, a1), (JInt 22, a2)])\<rparr>,
                   log1 @ [probe_req c a1, probe_req c a2])"
proof -
  from empty have n1: "\<not> already_requested c folder a1"
    by (simp add: already_requested_def)
  have s1: "store c folder (JInt 11) a1
              = c\<lparr>id_to_address_mapping := (id_to_address_mapping c)(folder \<mapsto> [(JInt 11, a1)])\<rparr>"
    by (simp add: store_def empty setitem_def)
  from dist have n2: "\<not> already_requested (store c folder (JInt 11) a1) folder a2"
    by (auto simp: s1 already_requested_def)
  have s2: "store (store c folder (JInt 11) a1) folder (JInt 22) a2
              = c\<lparr>id_to_address_mapping :=
                    (id_to_address_mapping c)(folder \<mapsto> [(JInt 11, a1), (JInt 22, a2)])\<rparr>"
    by (simp add: s1) (simp add: store_def setitem_def)
  have "probe net 22 folder (d1 # d2 # rest) c log1
          = probe net 22 folder (d2 # rest) (store c folder (JInt 11) a1) (log1 @ [probe_req c a1])"
    using probe_step[where net = net and log = log1 and k = "JInt 11" and n = 22 and rest = "d2 # rest",
        OF names(1) n1 r1]
    by simp
  also have "\<dots> = Some (Inr a2, store (store c folder (JInt 11) a1) folder (JInt 22) a2,
                        (log1 @ [probe_req c a1]) @ [probe_req c a2])"
    using probe_step[where net = net and log = "log1 @ [probe_req c a1]" and k = "JInt 22"
        and v = "JInt 22" and n = 22 and rest = rest and resp = r2, OF names(2) n2]
      r2 by simp
  finally show ?thesis by (simp add: s2)
qed

lemma folder_net_devices:
  "get_devices folder_net demo_client ''f'' []
     = Some (Inr \<lparr>body = JArr [device ''DEC001'', device ''DEC002'', device ''DEC003''],
                  retrieve_after_id = None\<rparr>,
             [first_req demo_client (devices_route ''f'') []])"
  unfolding get_devices_def make_req_def Let_def
  by (subst pages.simps) (simp add: folder_net_def truthy_def)

lemma folder_net_probes:
  "folder_net h (probe_req demo_client ''DEC001'') = Inr (reading 11)"
  "folder_net h (probe_req demo_client ''DEC002'') = Inr (reading 22)"
  "folder_net h (probe_req demo_client ''DEC003'') = Inr (reading 33)"
  by (simp_all add: folder_net_def probe_req_def first_req_def readings_route_def devices_route_def
        join_def param_str_def demo_client_def init_def)

lemma reading_device_id_reading [simp]: "reading_device_id (reading n) = Inr (JInt n)"
  by (simp add: reading_device_id_def reading_def and_then_def)

lemma device_name [simp]: "subscript (device a) ''name'' = Inr (JStr a)"
  by (simp add: device_def)

text \<open>
  C1. Let the device list of a folder be \<open>[D1, D2, D3]\<close> with distinct addresses, let the
  cache be empty, and let the probes of \<open>D1\<close> and \<open>D2\<close> answer with the ids 11 and 22. Then
  \<^verbatim>\<open>address_from_decentlab_id(22, folder)\<close> makes, after fetching the device list, exactly
  the two requests that probe \<open>D1\<close> and \<open>D2\<close>, in this order, and none that probes \<open>D3\<close>
  (whatever id \<open>D3\<close> has); it returns the address of \<open>D2\<close>, and the cache of the folder
  then holds exactly \<open>11 \<rightarrow> D1\<close> and \<open>22 \<rightarrow> D2\<close>.
\<close>

theorem probe_short_circuit:
  assumes empty: "id_to_address_mapping c = Map.empty"
    and devs: "get_devices net c folder log = Some (Inr devices, log1)"
    and list: "body devices = JArr [d1, d2, d3]"
    and names: "subscript d1 ''name'' = Inr (JStr a1)" "subscript d2 ''name'' = Inr (JStr a2)"
               "subscript d3 ''name'' = Inr (JStr a3)"
    and dist: "distinct [a1, a2, a3]"
    and r1: "net log1 (probe_req c a1) = Inr r1" "reading_device_id r1 = Inr (JInt 11)"
    and r2: "net (log1 @ [probe_req c a1]) (probe_req c a2) = Inr r2"
            "reading_device_id r2 = Inr (JInt 22)"
  shows "address_from_decentlab_id net c 22 folder log
           = Some (Inr a2,
                   c\<lparr>id_to_address_mapping := [folder \<mapsto> [(JInt 11, a1), (JInt 22, a2)]]\<rparr>,
                   log1 @ [probe_req c a1, probe_req c a2])
         \<and> probe_req c a3 \<notin> set [probe_req c a1, probe_req c a2]"
proof -
  from empty have e: "id_to_address_mapping c folder = None" by simp
  from dist have d12: "a1 \<noteq> a2" by simp
  have "address_from_decentlab_id net c 22 folder log
          = probe net 22 folder [d1, d2, d3] c log1"
    by (simp add: address_from_decentlab_id_def cached_address_empty[OF e] devs list)
  also note probe_two[OF e names(1,2) d12 r1 r2, of "[d3]"]
  finally show ?thesis using dist by (auto simp: empty probe_req_inj)
qed

theorem probe_short_circuit_witness:
  "address_from_decentlab_id folder_net demo_client 22 ''f'' []
     = Some (Inr ''DEC002'',
             demo_client\<lparr>id_to_address_mapping :=
                           [''f'' \<mapsto> [(JInt 11, ''DEC001''), (JInt 22, ''DEC002'')]]\<rparr>,
             [first_req demo_client (devices_route ''f'') [],
              probe_req demo_client ''DEC001'', probe_req demo_client ''DEC002''])
   \<and> probe_req demo_client ''DEC003''
       \<notin> set [probe_req demo_client ''DEC001'', probe_req demo_client ''DEC002'']"
proof -
  have e: "id_to_address_mapping demo_client = Map.empty"
    by (simp add: demo_client_def init_def)
  have l: "body \<lparr>body = JArr [device ''DEC001'', device ''DEC002'', device ''DEC003''],
                  retrieve_after_id = None\<rparr>
             = JArr [device ''DEC001'', device ''DEC002'', device ''DEC003'']"
    by simp
  have d: "distinct [''DEC001'', ''DEC002'', ''DEC003'']" by simp
  from probe_short_circuit[OF e folder_net_devices l device_name device_name device_name d
      folder_net_probes(1) reading_device_id_reading folder_net_probes(2) reading_device_id_reading]
  show ?thesis by simp
qed

lemma probe_append:
  "probe net n folder pre c log = Some (Inl (UnableToFindAddress n), c1, log1) \<Longrightarrow>
   probe net n folder (pre @ rest) c log = probe net n folder rest c1 log1"
proof (induction pre arbitrary: c log)
  case Nil
  then show ?case by simp
next
  case (Cons i pre)
  from Cons.prems show ?case
    using Cons.IH
    by (auto simp: get_readings_probe split: sum.splits json.splits if_splits
             dest: subscript_error reading_device_id_error hash_key_error)
qed

lemma probe_api:
  assumes "probe net n folder ds c log = Some (r, c', log')"
  shows "api_location c' = api_location c \<and> api_key c' = api_key c"
proof -
  have "api_location c = api_location c \<and> api_key c = api_key c" by simp
  from probe_invariant[where P = "\<lambda>x. api_location x = api_location c \<and> api_key x = api_key c",
      OF _ _ this assms]
  show ?thesis by (simp add: store_def touch_def)
qed

lemma probe_req_api:
  "api_location c' = api_location c \<and> api_key c' = api_key c \<Longrightarrow> probe_req c' a = probe_req c a"
  by (simp add: probe_req_def first_req_def)

lemma probe_empty_reading:
  assumes "subscript i ''name'' = Inr (JStr a)" and "\<not> already_requested c folder a"
    and "net log (probe_req c a) = Inr resp" and "body resp = JArr []"
  shows "probe net n folder (i # rest) c log = Some (Inl IndexError, c, log @ [probe_req c a])"
  using assms by (simp add: get_readings_probe reading_device_id_def and_then_def)

text \<open>
  C10. Let the probe loop pass the devices in front of a device \<open>i\<close> without finding the id
  (run on them alone it ends in the \<^verbatim>\<open>else\<close> branch), let the address of \<open>i\<close> not be in
  the cache at that point, and let the probe of \<open>i\<close> answer with an empty list of
  readings. Then \<^verbatim>\<open>address_from_decentlab_id\<close> leaves with the \<^verbatim>\<open>IndexError\<close> of
  \<^verbatim>\<open>resp['body'][0]\<close> right after that probe: it neither skips the device nor raises the
  \<^verbatim>\<open>ValueError\<close> of an id not found, and it stores nothing for the device.
\<close>

theorem empty_reading_raises_index_error:
  assumes miss: "cached_address c n folder = None"
    and devs: "get_devices net c folder log = Some (Inr devices, log0)"
    and list: "body devices = JArr (pre @ i # rest)"
    and pre: "probe net n folder pre c log0 = Some (Inl (UnableToFindAddress n), c1, log1)"
    and name: "subscript i ''name'' = Inr (JStr a)"
    and unc: "\<not> already_requested c1 folder a"
    and resp: "net log1 (probe_req c a) = Inr resp" "body resp = JArr []"
  shows "address_from_decentlab_id net c n folder log
           = Some (Inl IndexError, c1, log1 @ [probe_req c a])"
proof -
  have q: "probe_req c1 a = probe_req c a"
    by (rule probe_req_api[OF probe_api[OF pre]])
  have "address_from_decentlab_id net c n folder log
          = probe net n folder (pre @ i # rest) c log0"
    by (simp add: address_from_decentlab_id_def miss devs list)
  also have "\<dots> = probe net n folder (i # rest) c1 log1"
    by (rule probe_append[OF pre])
  also have "\<dots> = Some (Inl IndexError, c1, log1 @ [probe_req c1 a])"
    using resp by (intro probe_empty_reading[OF name unc]) (simp_all add: q)
  finally show ?thesis by (simp add: q)
qed

lemma sparse_net_devices:
  "get_devices sparse_net demo_client ''f'' []
     = Some (Inr \<lparr>body = JArr [device ''DEC001'', device ''DEC002''], retrieve_after_id = None\<rparr>,
             [first_req demo_client (devices_route ''f'') []])"
  unfolding get_devices_def make_req_def Let_def
  by (subst pages.simps) (simp add: sparse_net_def truthy_def)

lemma sparse_net_probes:
  "sparse_net h (probe_req demo_client ''DEC001'') = Inr (reading 11)"
  "sparse_net h (probe_req demo_client ''DEC002'') = Inr \<lparr>body = JArr [], retrieve_after_id = None\<rparr>"
  by (simp_all add: sparse_net_def probe_req_def first_req_def readings_route_def devices_route_def
        join_def param_str_def demo_client_def init_def)

lemma demo_client_empty: "id_to_address_mapping demo_client = Map.empty"
  by (simp add: demo_client_def init_def)

theorem empty_reading_raises_index_error_witness:
  "address_from_decentlab_id sparse_net demo_client 22 ''f'' []
     = Some (Inl IndexError,
             store demo_client ''f'' (JInt 11) ''DEC001'',
             [first_req demo_client (devices_route ''f'') [],
              probe_req demo_client ''DEC001'', probe_req demo_client ''DEC002''])"
proof -
  let ?l0 = "[first_req demo_client (devices_route ''f'') []]"
  let ?c1 = "store demo_client ''f'' (JInt 11) ''DEC001''"
  have miss: "cached_address demo_client 22 ''f'' = None"
    by (simp add: cached_address_def demo_client_empty)
  have l: "body \<lparr>body = JArr [device ''DEC001'', device ''DEC002''], retrieve_after_id = None\<rparr>
             = JArr ([device ''DEC001''] @ device ''DEC002'' # [])"
    by simp
  have n1: "\<not> already_requested demo_client ''f'' ''DEC001''"
    by (simp add: already_requested_def demo_client_empty)
  have pre: "probe sparse_net 22 ''f'' [device ''DEC001''] demo_client ?l0
               = Some (Inl (UnableToFindAddress 22), ?c1, ?l0 @ [probe_req demo_client ''DEC001''])"
    using probe_step[where net = sparse_net and log = ?l0 and k = "JInt 11" and v = "JInt 11"
        and n = 22 and rest = "[]" and resp = "reading 11", OF device_name n1 sparse_net_probes(1)]
    by simp
  have unc: "\<not> already_requested ?c1 ''f'' ''DEC002''"
    by (simp add: already_requested_def store_def setitem_def demo_client_empty)
  have b: "body \<lparr>body = JArr [], retrieve_after_id = None\<rparr> = JArr []" by simp
  from empty_reading_raises_index_error[OF miss sparse_net_devices l pre device_name unc
      sparse_net_probes(2) b]
  show ?thesis by simp
qed

lemma demo_lookup_22:
  "address_from_decentlab_id folder_net demo_client 22 ''f'' []
     = Some (Inr ''DEC002'', demo_cached,
             [first_req demo_client (devices_route ''f'') [],
              probe_req demo_client ''DEC001'', probe_req demo_client ''DEC002''])"
proof -
  have e: "id_to_address_mapping demo_client ''f'' = None"
    by (simp add: demo_client_empty)
  have d: "''DEC001'' \<noteq> ''DEC002''" by simp
  have "address_from_decentlab_id folder_net demo_client 22 ''f'' []
          = probe folder_net 22 ''f'' [device ''DEC001'', device ''DEC002'', device ''DEC003'']
              demo_client [first_req demo_client (devices_route ''f'') []]"
    by (simp add: address_from_decentlab_id_def cached_address_empty[OF e] folder_net_devices)
  also note probe_two[where net = folder_net and rest = "[device ''DEC003'']",
      OF e device_name device_name d folder_net_probes(1) reading_device_id_reading
         folder_net_probes(2) reading_device_id_reading]
  finally show ?thesis by (simp add: demo_cached_def demo_client_empty)
qed

lemma demo_cached_reachable: "reachable demo_cached"
proof -
  have "reachable demo_client" unfolding demo_client_def by (rule reachable.fresh)
  from reachable.after[OF this call.reverse[OF demo_lookup_22]] show ?thesis .
qed

lemma demo_cached_dict:
  "id_to_address_mapping demo_cached ''f'' = Some [(JInt 11, ''DEC001''), (JInt 22, ''DEC002'')]"
  by (simp add: demo_cached_def)

theorem reverse_view_is_inversion_witness:
  "reachable demo_cached
   \<and> inj_on (forward_lookup demo_cached ''f'') (dom (forward_lookup demo_cached ''f''))
   \<and> forward_lookup demo_cached ''f'' (JInt 22) = Some ''DEC002''
   \<and> reverse_lookup demo_cached ''f'' ''DEC002'' = Some (JInt 22)
   \<and> reverse_lookup demo_cached ''f'' ''DEC003'' = None"
proof -
  have i: "inj_on (forward_lookup demo_cached ''f'') (dom (forward_lookup demo_cached ''f''))"
    by (auto simp: inj_on_def dom_def forward_lookup_def demo_cached_dict split: if_splits)
  have f: "forward_lookup demo_cached ''f'' (JInt 22) = Some ''DEC002''"
    by (simp add: forward_lookup_def demo_cached_dict)
  have g: "forward_lookup demo_cached ''f'' k \<noteq> Some ''DEC003''" for k
    by (simp add: forward_lookup_def demo_cached_dict)
  note t = reverse_view_is_inversion[OF demo_cached_reachable i]
  from t[of "''DEC002''" "JInt 22"] f
  have r: "reverse_lookup demo_cached ''f'' ''DEC002'' = Some (JInt 22)" by simp
  have n: "reverse_lookup demo_cached ''f'' ''DEC003'' = None"
  proof (cases "reverse_lookup demo_cached ''f'' ''DEC003''")
    case None
    then show ?thesis .
  next
    case (Some k)
    with t[of "''DEC003''" k] g[of k] show ?thesis by simp
  qed
  from demo_cached_reachable i f r n show ?thesis by blast
qed

section \<open>An id that no device has\<close>

lemma update_fresh: "k \<notin> fst ` set d \<Longrightarrow> AList.update k v d = d @ [(k, v)]"
  by (induction d) auto

lemma already_requested_iff:
  "already_requested c folder a \<longleftrightarrow> a \<in> snd ` set (folder_dict c folder)"
  by (auto simp: already_requested_def folder_dict_def split: option.splits)

lemma folder_dict_store:
  "folder_dict (store c folder k a) folder = setitem k a (folder_dict c folder)"
  by (simp add: folder_dict_def store_def)

lemma store_fresh:
  assumes ag: "agrees ident c folder"
    and inj: "inj_on ident (insert a (snd ` set (folder_dict c folder)))"
    and unc: "\<not> already_requested c folder a"
  shows "folder_dict (store c folder (JInt (ident a)) a) folder
           = folder_dict c folder @ [(JInt (ident a), a)]"
proof -
  have "JInt (ident a) \<notin> fst ` set (folder_dict c folder)"
  proof
    assume "JInt (ident a) \<in> fst ` set (folder_dict c folder)"
    then obtain a' where m: "(JInt (ident a), a') \<in> set (folder_dict c folder)" by force
    with ag have "JInt (ident a) = JInt (ident a')" by (force simp: agrees_def)
    then have "ident a = ident a'" by simp
    moreover from m have v: "a' \<in> snd ` set (folder_dict c folder)" by force
    ultimately have "a = a'" using inj by (auto simp: inj_on_def)
    with v unc show False by (simp add: already_requested_iff)
  qed
  then show ?thesis by (simp add: folder_dict_store setitem_def update_fresh)
qed

lemma probe_exhaust:
  assumes "agrees ident c folder"
    and "inj_on ident (set names \<union> snd ` set (folder_dict c folder))"
    and "distinct names"
    and "map (\<lambda>i. subscript i ''name'') ds = map (\<lambda>a. Inr (JStr a)) names"
    and "\<forall>a \<in> set names. \<forall>h. \<exists>r. net h (probe_req c a) = Inr r
                                    \<and> reading_device_id r = Inr (JInt (ident a))"
    and "\<forall>a \<in> set names. ident a \<noteq> n"
  shows "\<exists>c'. probe net n folder ds c log
           = Some (Inl (UnableToFindAddress n), c',
                   log @ map (probe_req c) (filter (\<lambda>a. \<not> already_requested c folder a) names))"
  using assms
proof (induction names arbitrary: ds c log)
  case Nil
  then show ?case by simp
next
  case (Cons a as)
  from Cons.prems(4) obtain i rest where ds: "ds = i # rest"
    and name: "subscript i ''name'' = Inr (JStr a)"
    and rest: "map (\<lambda>i. subscript i ''name'') rest = map (\<lambda>a. Inr (JStr a)) as"
    by (cases ds) auto
  from Cons.prems(3) have das: "distinct as" and a_as: "a \<notin> set as" by simp_all
  from Cons.prems(6) have ne: "\<forall>x \<in> set as. ident x \<noteq> n" and na: "ident a \<noteq> n" by simp_all
  show ?case
  proof (cases "already_requested c folder a")
    case True
    have inj: "inj_on ident (set as \<union> snd ` set (folder_dict c folder))"
      by (rule inj_on_subset[OF Cons.prems(2)]) auto
    from Cons.prems(5) have pr: "\<forall>x \<in> set as. \<forall>h. \<exists>r. net h (probe_req c x) = Inr r
                                    \<and> reading_device_id r = Inr (JInt (ident x))"
      by simp
    from Cons.IH[OF Cons.prems(1) inj das rest pr ne, of log] True name
    show ?thesis by (simp add: ds)
  next
    case False
    let ?c = "store c folder (JInt (ident a)) a"
    let ?log = "log @ [probe_req c a]"
    from Cons.prems(5) obtain r where r: "net log (probe_req c a) = Inr r"
      and rid: "reading_device_id r = Inr (JInt (ident a))"
      by (metis list.set_intros(1))
    have inj_a: "inj_on ident (insert a (snd ` set (folder_dict c folder)))"
      by (rule inj_on_subset[OF Cons.prems(2)]) auto
    have fd: "folder_dict ?c folder = folder_dict c folder @ [(JInt (ident a), a)]"
      by (rule store_fresh[OF Cons.prems(1) inj_a False])
    have ag: "agrees ident ?c folder"
      using Cons.prems(1) by (auto simp: agrees_def fd)
    have inj: "inj_on ident (set as \<union> snd ` set (folder_dict ?c folder))"
      by (rule inj_on_subset[OF Cons.prems(2)]) (auto simp: fd)
    from Cons.prems(5) have pr: "\<forall>x \<in> set as. \<forall>h. \<exists>r. net h (probe_req ?c x) = Inr r
                                    \<and> reading_device_id r = Inr (JInt (ident x))"
      by simp
    have flt: "filter (\<lambda>x. \<not> already_requested ?c folder x) as
                 = filter (\<lambda>x. \<not> already_requested c folder x) as"
      using a_as by (intro filter_cong) (auto simp: already_requested_iff fd)
    have step: "probe net n folder ds c log = probe net n folder rest ?c ?log"
      using probe_step[where net = net and log = log and k = "JInt (ident a)" and n = n
          and rest = rest, OF name False r rid] na
      by (simp add: ds)
    from Cons.IH[OF ag inj das rest pr ne, of ?log] False
    show ?thesis by (simp add: step flt)
  qed
qed

text \<open>
  C4. Let every device have one numeric id (\<open>ident\<close>, one-to-one on the addresses in the
  device list and in the cache), let the cache of the folder agree with it, and let the
  device list name each device once. If the requested id is not cached and is the id of no
  device in the list, then \<^verbatim>\<open>address_from_decentlab_id\<close> raises the \<^verbatim>\<open>ValueError\<close> that
  carries the requested id, and between fetching the device list and raising it has made
  exactly one probe request for every device whose address was not in the cache, in the
  order of the list, and no other request. It returns no value.
\<close>

theorem unknown_id_raises_after_probing_all:
  assumes miss: "cached_address c n folder = None"
    and devs: "get_devices net c folder log = Some (Inr devices, log1)"
    and list: "body devices = JArr ds"
    and names: "map (\<lambda>i. subscript i ''name'') ds = map (\<lambda>a. Inr (JStr a)) names"
    and dist: "distinct names"
    and ag: "agrees ident c folder"
    and inj: "inj_on ident (set names \<union> snd ` set (folder_dict c folder))"
    and probes: "\<forall>a \<in> set names. \<forall>h. \<exists>r. net h (probe_req c a) = Inr r
                                    \<and> reading_device_id r = Inr (JInt (ident a))"
    and absent: "\<forall>a \<in> set names. ident a \<noteq> n"
  shows "\<exists>c'. address_from_decentlab_id net c n folder log
           = Some (Inl (UnableToFindAddress n), c',
                   log1 @ map (probe_req c)
                            (filter (\<lambda>a. \<not> already_requested c folder a) names))"
proof -
  have "address_from_decentlab_id net c n folder log = probe net n folder ds c log1"
    by (simp add: address_from_decentlab_id_def miss devs list)
  with probe_exhaust[OF ag inj dist names probes absent, of log1] show ?thesis by simp
qed

lemma demo_cached_api [simp]:
  "first_req demo_cached route params = first_req demo_client route params"
  "probe_req demo_cached a = probe_req demo_client a"
  by (simp_all add: demo_cached_def first_req_def probe_req_def)

lemma folder_net_devices_cached:
  "get_devices folder_net demo_cached ''f'' []
     = Some (Inr \<lparr>body = JArr [device ''DEC001'', device ''DEC002'', device ''DEC003''],
                  retrieve_after_id = None\<rparr>,
             [first_req demo_client (devices_route ''f'') []])"
  unfolding get_devices_def make_req_def Let_def
  by (subst pages.simps) (simp add: folder_net_def truthy_def)

theorem unknown_id_raises_after_probing_all_witness:
  "\<exists>c'. address_from_decentlab_id folder_net demo_cached 44 ''f'' []
          = Some (Inl (UnableToFindAddress 44), c',
                  [first_req demo_client (devices_route ''f'') [],
                   probe_req demo_client ''DEC003''])"
proof -
  let ?names = "[''DEC001'', ''DEC002'', ''DEC003'']"
  have fd: "folder_dict demo_cached ''f'' = [(JInt 11, ''DEC001''), (JInt 22, ''DEC002'')]"
    by (simp add: folder_dict_def demo_cached_dict)
  have miss: "cached_address demo_cached 44 ''f'' = None"
    by (simp add: cached_address_def demo_cached_dict truthy_def)
  have l: "body \<lparr>body = JArr [device ''DEC001'', device ''DEC002'', device ''DEC003''],
                  retrieve_after_id = None\<rparr>
             = JArr [device ''DEC001'', device ''DEC002'', device ''DEC003'']"
    by simp
  have names: "map (\<lambda>i. subscript i ''name'') [device ''DEC001'', device ''DEC002'', device ''DEC003'']
                 = map (\<lambda>a. Inr (JStr a)) ?names"
    by simp
  have dist: "distinct ?names" by simp
  have ag: "agrees demo_ident demo_cached ''f''"
    by (simp add: agrees_def fd demo_ident_def)
  have inj: "inj_on demo_ident (set ?names \<union> snd ` set (folder_dict demo_cached ''f''))"
    by (auto simp: inj_on_def fd demo_ident_def split: if_splits)
  have probes: "\<forall>a \<in> set ?names. \<forall>h. \<exists>r. folder_net h (probe_req demo_cached a) = Inr r
                                    \<and> reading_device_id r = Inr (JInt (demo_ident a))"
    by (simp add: folder_net_probes demo_ident_def)
  have absent: "\<forall>a \<in> set ?names. demo_ident a \<noteq> 44"
    by (simp add: demo_ident_def)
  have flt: "filter (\<lambda>a. \<not> already_requested demo_cached ''f'' a) ?names = [''DEC003'']"
    by (simp add: already_requested_iff fd)
  note t = unknown_id_raises_after_probing_all[OF miss folder_net_devices_cached l names dist ag inj
      probes absent]
  from t[unfolded flt] show ?thesis by simp
qed

section \<open>Lookups of cached pairs\<close>

lemma map_of_invert_mem: "map_of (invert d) a = Some k \<Longrightarrow> (k, a) \<in> set d"
proof -
  assume "map_of (invert d) a = Some k"
  then have "map_of (rev (map (\<lambda>kv. (snd kv, fst kv)) d)) a = Some k"
    by (simp add: invert_def map_of_invert_fold)
  then have "(a, k) \<in> set (rev (map (\<lambda>kv. (snd kv, fst kv)) d))" by (rule map_of_SomeD)
  then show ?thesis by force
qed

lemma cached_id_mem:
  assumes "cached_id c a folder = k" and "k \<noteq> JNull"
  shows "\<exists>d. id_to_address_mapping c folder = Some d \<and> (k, a) \<in> set d"
  using assms
  by (auto simp: cached_id_def address_to_id_mapping_def
           split: option.splits if_splits dest: map_of_invert_mem)

lemma reverse_hit:
  assumes "forward_lookup c folder (JInt n) = Some a" and "a \<noteq> []"
  shows "address_from_decentlab_id net c n folder log = Some (Inr a, c, log)"
proof -
  from assms have "cached_address c n folder = Some a"
    by (auto simp: forward_lookup_def cached_address_def truthy_def split: option.splits)
  then show ?thesis by (simp add: address_from_decentlab_id_def)
qed

lemma forward_hit:
  assumes "cached_id c a folder \<noteq> JNull"
  shows "decentlab_id_from_address net parse lower c a folder log
           = Some (Inr (cached_id c a folder), c, log)"
  using assms by (simp add: decentlab_id_from_address_def Let_def)

lemma forward_lookup_store:
  "forward_lookup (store c folder k a) f k'
     = (if f = folder \<and> k' = k then Some a else forward_lookup c f k')"
  by (simp add: forward_lookup_def store_def setitem_def update_conv' split: option.splits)


lemma forward_result_cached:
  assumes wf: "wf_cache c"
    and run: "decentlab_id_from_address net parse lower c addr folder log = Some (Inr k, c', log')"
  shows "forward_lookup c' folder k = Some addr"
proof (cases "cached_id c addr folder = JNull")
  case True
  with run show ?thesis
    by (auto simp: decentlab_id_from_address_def Let_def forward_lookup_store
             split: option.splits sum.splits prod.splits)
next
  case False
  with run have k: "cached_id c addr folder = k" and c': "c' = c"
    by (auto simp: decentlab_id_from_address_def Let_def)
  from cached_id_mem[OF k] False k obtain d where d: "id_to_address_mapping c folder = Some d"
    and m: "(k, addr) \<in> set d" by auto
  from wf d have "distinct (map fst d)" by (simp add: wf_cache_def)
  with m have "map_of d k = Some addr" by simp
  with d c' show ?thesis by (simp add: forward_lookup_def)
qed

text \<open>
  For an address that is not the empty string the round trip holds: at every reachable state,
  when \<^verbatim>\<open>decentlab_id_from_address(addr, f)\<close> returns the id \<open>x\<close>, the call
  \<^verbatim>\<open>address_from_decentlab_id(x, f)\<close> that follows returns \<open>addr\<close> on every transport with no
  request made and the client as it was, and so does every repetition of it.
\<close>

lemma forward_then_reverse:
  assumes "reachable c" and "addr \<noteq> []"
    and "decentlab_id_from_address net parse lower c addr folder log
           = Some (Inr (JInt x), c', log')"
  shows "address_from_decentlab_id net' c' x folder log'' = Some (Inr addr, c', log'')"
proof -
  from assms(1) have wf: "wf_cache c" by (rule reachable_wf_cache)
  from forward_result_cached[OF wf assms(3)]
  have f: "forward_lookup c' folder (JInt x) = Some addr" .
  from reverse_hit[OF f assms(2)] show ?thesis .
qed

text \<open>
  A repeated \<^verbatim>\<open>decentlab_id_from_address\<close> for a cached address makes no request and leaves
  the client as it was, when the keys of the cache are integers.
\<close>

lemma repeated_forward:
  assumes "forward_lookup c folder k = Some addr" and "numeric_keys c"
  shows "\<exists>k'. k' \<noteq> JNull \<and> decentlab_id_from_address net parse lower c addr folder log
                 = Some (Inr k', c, log)"
proof -
  from assms(1) obtain d where d: "id_to_address_mapping c folder = Some d"
    and m: "map_of d k = Some addr"
    by (auto simp: forward_lookup_def split: option.splits)
  from m have mem: "(k, addr) \<in> set d" by (rule map_of_SomeD)
  then have ne: "d \<noteq> []" by auto
  from mem have "(addr, k) \<in> set (rev (map (\<lambda>kv. (snd kv, fst kv)) d))" by force
  then have "map_of (rev (map (\<lambda>kv. (snd kv, fst kv)) d)) addr \<noteq> None"
    by (metis map_of_eq_None_iff fst_conv image_eqI)
  then obtain k' where k': "map_of (invert d) addr = Some k'"
    by (auto simp: invert_def map_of_invert_fold)
  from map_of_invert_mem[OF k'] have km: "(k', addr) \<in> set d" .
  from assms(2) have "\<forall>ka \<in> set (folder_dict c folder). \<exists>n. fst ka = JInt n"
    by (simp add: numeric_keys_def)
  with d have "\<forall>ka \<in> set d. \<exists>n. fst ka = JInt n" by (simp add: folder_dict_def)
  with km have "k' \<noteq> JNull" by force
  moreover from ne have "invert d \<noteq> []"
    using k' by auto
  ultimately have "cached_id c addr folder = k'" "cached_id c addr folder \<noteq> JNull"
    using d k' by (simp_all add: cached_id_def address_to_id_mapping_def)
  with forward_hit[OF this(2), of net parse lower log] show ?thesis by auto
qed

lemma make_req_single:
  assumes "net log (first_req c route params) = Inr out" and "\<not> truthy (retrieve_after_id out)"
  shows "make_req net c route params max_pages log
           = Some (Inr out, log @ [first_req c route params])"
  unfolding make_req_def Let_def
  using assms by (subst pages.simps) simp

lemma device_serial_record [simp]:
  "device_serial (device_record a serial) = Inr (JStr serial)"
  by (simp add: device_serial_def device_record_def and_then_def)

lemma device_record_name [simp]: "subscript (device_record a serial) ''name'' = Inr (JStr a)"
  by (simp add: device_record_def)

lemma cached_id_fresh: "cached_id demo_client a folder = JNull"
  by (simp add: cached_id_def address_to_id_mapping_def demo_client_empty)

lemma seen_blank_api [simp]:
  "first_req seen_blank route params = first_req demo_client route params"
  by (simp add: seen_blank_def first_req_def store_def)

lemma blank_first:
  "decentlab_id_from_address blank_net demo_parse ascii_lower demo_client [] ''f'' []
     = Some (Inr (JInt 21680), seen_blank,
             [first_req demo_client (device_route ascii_lower []) []])"
proof -
  have n: "blank_net [] (first_req demo_client (device_route ascii_lower []) [])
             = Inr \<lparr>body = device_record [] ''21680'', retrieve_after_id = None\<rparr>"
    by (simp add: blank_net_def first_req_def device_route_def devices_route_def join_def
          ascii_lower_def param_str_def)
  have "get_device blank_net ascii_lower demo_client [] []
          = Some (Inr \<lparr>body = device_record [] ''21680'', retrieve_after_id = None\<rparr>,
                  [first_req demo_client (device_route ascii_lower []) []])"
    unfolding get_device_def using make_req_single[where net = blank_net and log = "[]", OF n] by (simp add: truthy_def)
  then show ?thesis
    by (simp add: decentlab_id_from_address_def cached_id_fresh and_then_def demo_parse_def
          seen_blank_def)
qed

lemma seen_blank_dict: "id_to_address_mapping seen_blank ''f'' = Some [(JInt 21680, [])]"
  by (simp add: seen_blank_def store_def setitem_def demo_client_empty)

lemma blank_second:
  "address_from_decentlab_id blank_net seen_blank 21680 ''f''
       [first_req demo_client (device_route ascii_lower []) []]
     = Some (Inl (UnableToFindAddress 21680), seen_blank,
             [first_req demo_client (device_route ascii_lower []) [],
              first_req demo_client (devices_route ''f'') []])"
proof -
  let ?log = "[first_req demo_client (device_route ascii_lower []) []]"
  have miss: "cached_address seen_blank 21680 ''f'' = None"
    by (simp add: cached_address_def seen_blank_dict truthy_def)
  have n: "blank_net ?log (first_req seen_blank (devices_route ''f'') [])
             = Inr \<lparr>body = JArr [device_record [] ''21680''], retrieve_after_id = None\<rparr>"
    by (simp add: blank_net_def)
  have devs: "get_devices blank_net seen_blank ''f'' ?log
          = Some (Inr \<lparr>body = JArr [device_record [] ''21680''], retrieve_after_id = None\<rparr>,
                  ?log @ [first_req demo_client (devices_route ''f'') []])"
    unfolding get_devices_def using make_req_single[where net = blank_net and log = "?log", OF n] by (simp add: truthy_def)
  have ar: "already_requested seen_blank ''f'' []"
    by (simp add: already_requested_def seen_blank_dict)
  show ?thesis
    by (simp add: address_from_decentlab_id_def miss devs ar)
qed

text \<open>
  C3 says that after \<^verbatim>\<open>decentlab_id_from_address(addr, f)\<close> has returned the id \<open>X\<close>, the call
  \<^verbatim>\<open>address_from_decentlab_id(X, f)\<close> returns \<open>addr\<close> without any request. The code tests the
  cached address for truth, not for presence, so for the empty address it goes on to the
  network: here the forward lookup of \<^verbatim>\<open>''\<close> returns 21680 and caches \<open>21680 \<rightarrow> ''\<close>; the
  reverse lookup of 21680 that follows requests the device list of the folder, skips its
  one device (its address is cached) and raises the \<^verbatim>\<open>ValueError\<close> of an id not found.
\<close>

theorem empty_address_is_looked_up_again:
  "decentlab_id_from_address blank_net demo_parse ascii_lower demo_client [] ''f'' []
     = Some (Inr (JInt 21680), seen_blank,
             [first_req demo_client (device_route ascii_lower []) []])
   \<and> forward_lookup seen_blank ''f'' (JInt 21680) = Some []
   \<and> address_from_decentlab_id blank_net seen_blank 21680 ''f''
       [first_req demo_client (device_route ascii_lower []) []]
     = Some (Inl (UnableToFindAddress 21680), seen_blank,
             [first_req demo_client (device_route ascii_lower []) [],
              first_req demo_client (devices_route ''f'') []])"
  using blank_first blank_second
  by (simp add: forward_lookup_def seen_blank_dict)

section \<open>Growth of the cache\<close>


lemma seen_upper_api [simp]:
  "first_req seen_upper route params = first_req demo_client route params"
  by (simp add: seen_upper_def first_req_def store_def)




















end
